theory Spec2Isabelle
  imports Main "HOL-Library.Multiset"
begin

section \<open>Search models, problems and nodes (busquedas.py)\<close>

text \<open>
  \<^verbatim>\<open>ModeloBusqueda\<close>: the three methods a model supplies.  States and actions are
  opaque values; step costs are integers.
\<close>

record ('s, 'a) modelo_busqueda =
  acciones_legales :: "'s \<Rightarrow> 'a list"
  sucesor :: "'s \<Rightarrow> 'a \<Rightarrow> 's"
  costo_local :: "'s \<Rightarrow> 'a \<Rightarrow> int"

text \<open>
  \<^verbatim>\<open>ProblemaBusqueda\<close>: initial state, goal predicate, model and the counter
  \<^verbatim>\<open>num_nodos\<close> that \<^verbatim>\<open>es_meta\<close> increments before it calls \<^verbatim>\<open>meta\<close>.
\<close>

record ('s, 'a) problema_busqueda =
  x0 :: 's
  meta :: "'s \<Rightarrow> bool"
  modelo :: "('s, 'a) modelo_busqueda"
  num_nodos :: nat

text \<open>\<^verbatim>\<open>Nodo\<close>: the six attributes set by \<^verbatim>\<open>__init__\<close>.\<close>

datatype ('s, 'a) nodo =
  Nodo (estado: 's) (accion: "'a option") (padre: "('s, 'a) nodo option")
       (costo: int) (profundidad: nat) (nodos_visitados: nat)

text \<open>\<^verbatim>\<open>Nodo.__init__(estado, accion=None, padre=None, costo_local=0)\<close>.\<close>

definition nodo_init ::
  "'s \<Rightarrow> 'a option \<Rightarrow> ('s, 'a) nodo option \<Rightarrow> int \<Rightarrow> ('s, 'a) nodo" where
  "nodo_init e a p cl =
     Nodo e a p
       (case p of None \<Rightarrow> 0 | Some q \<Rightarrow> costo q + cl)
       (case p of None \<Rightarrow> 0 | Some q \<Rightarrow> profundidad q + 1)
       0"

text \<open>The assignment \<^verbatim>\<open>nodo.nodos_visitados = k\<close>.\<close>

definition sella :: "('s, 'a) nodo \<Rightarrow> nat \<Rightarrow> ('s, 'a) nodo" where
  "sella n k = Nodo (estado n) (accion n) (padre n) (costo n) (profundidad n) k"

text \<open>\<^verbatim>\<open>Nodo.expande\<close>: one child per legal action, in the order of the actions.\<close>

definition expande :: "('s, 'a) nodo \<Rightarrow> ('s, 'a) modelo_busqueda \<Rightarrow> ('s, 'a) nodo list" where
  "expande n M =
     map (\<lambda>a. nodo_init (sucesor M (estado n) a) (Some a) (Some n) (costo_local M (estado n) a))
         (acciones_legales M (estado n))"

text \<open>
  \<^verbatim>\<open>Nodo.genera_plan\<close>: the list alternates states and actions, so its elements are
  a sum of both.
\<close>

datatype ('s, 'a) paso = Est 's | Acc "'a option"

fun genera_plan :: "('s, 'a) nodo \<Rightarrow> ('s, 'a) paso list" where
  "genera_plan (Nodo e a p c d k) =
     (case p of None \<Rightarrow> [Est e]
      | Some q \<Rightarrow> genera_plan q @ [Acc a, Est e])"

section \<open>Loops\<close>

text \<open>
  A \<^verbatim>\<open>while\<close> loop whose body may \<^verbatim>\<open>return\<close>: one pass of the body either
  returns a result (\<open>Inl\<close>) or hands the next loop state to the loop test (\<open>Inr\<close>).
  The loop has no value (\<open>None\<close>) when it never returns.
\<close>

partial_function (option) ciclo_while :: "('st \<Rightarrow> 'r + 'st) \<Rightarrow> 'st \<Rightarrow> 'r option" where
  [code]: "ciclo_while paso s = (case paso s of Inl r \<Rightarrow> Some r | Inr s' \<Rightarrow> ciclo_while paso s')"

section \<open>Breadth-first search\<close>

text \<open>
  The \<^verbatim>\<open>for hijo in nodo.expande(...)\<close> loop of \<^verbatim>\<open>busqueda_ancho\<close>; the first
  component of the result is the node returned from inside the loop, if any.
\<close>

fun ancho_hijos ::
  "('s, 'a) problema_busqueda \<Rightarrow> ('s, 'a) nodo list \<Rightarrow> ('s, 'a) nodo list \<Rightarrow> 's set \<Rightarrow> nat
   \<Rightarrow> ('s, 'a) nodo option \<times> ('s, 'a) nodo list \<times> 's set \<times> nat" where
  "ancho_hijos P [] frontera visitados num = (None, frontera, visitados, num)"
| "ancho_hijos P (hijo # hijos) frontera visitados num =
     (if estado hijo \<in> visitados then ancho_hijos P hijos frontera visitados num
      else if meta P (estado hijo) then (Some (sella hijo (num + 1)), frontera, visitados, num + 1)
      else ancho_hijos P hijos (frontera @ [hijo]) (insert (estado hijo) visitados) (num + 1))"

text \<open>One pass of \<^verbatim>\<open>while frontera:\<close>; the loop state is frontier, visited set and counter.\<close>

fun ancho_paso ::
  "('s, 'a) problema_busqueda \<Rightarrow> ('s, 'a) nodo list \<times> 's set \<times> nat
   \<Rightarrow> (('s, 'a) nodo option \<times> nat) + (('s, 'a) nodo list \<times> 's set \<times> nat)" where
  "ancho_paso P (frontera, visitados, num) =
     (case frontera of
        [] \<Rightarrow> Inl (None, num)
      | nodo # resto \<Rightarrow>
          (case ancho_hijos P (expande nodo (modelo P)) resto visitados num of
             (Some r, _, _, num') \<Rightarrow> Inl (Some r, num')
           | (None, frontera', visitados', num') \<Rightarrow> Inr (frontera', visitados', num')))"

text \<open>
  Every strategy returns the node (or \<^verbatim>\<open>None\<close>) together with the final value of
  \<^verbatim>\<open>problema.num_nodos\<close>; the outer option is \<open>None\<close> when the loop never ends.
\<close>

definition busqueda_ancho ::
  "('s, 'a) problema_busqueda \<Rightarrow> (('s, 'a) nodo option \<times> nat) option" where
  "busqueda_ancho P =
     (if meta P (x0 P) then Some (Some (nodo_init (x0 P) None None 0), num_nodos P + 1)
      else ciclo_while (ancho_paso P) ([nodo_init (x0 P) None None 0], {x0 P}, num_nodos P + 1))"

section \<open>Depth-first search and iterative deepening\<close>

fun profundo_hijos ::
  "('s, 'a) nodo list \<Rightarrow> ('s, 'a) nodo list \<Rightarrow> ('s \<rightharpoonup> nat)
   \<Rightarrow> ('s, 'a) nodo list \<times> ('s \<rightharpoonup> nat)" where
  "profundo_hijos [] frontera visitados = (frontera, visitados)"
| "profundo_hijos (hijo # hijos) frontera visitados =
     (if (case visitados (estado hijo) of None \<Rightarrow> True | Some d \<Rightarrow> d > profundidad hijo)
      then profundo_hijos hijos (frontera @ [hijo]) (visitados(estado hijo \<mapsto> profundidad hijo))
      else profundo_hijos hijos frontera visitados)"

fun profundo_paso ::
  "('s, 'a) problema_busqueda \<Rightarrow> int option \<Rightarrow> ('s, 'a) nodo list \<times> ('s \<rightharpoonup> nat) \<times> nat
   \<Rightarrow> (('s, 'a) nodo option \<times> nat) + (('s, 'a) nodo list \<times> ('s \<rightharpoonup> nat) \<times> nat)" where
  "profundo_paso P max_profundidad (frontera, visitados, num) =
     (if frontera = [] then Inl (None, num)
      else
        let nodo = last frontera; resto = butlast frontera in
        if meta P (estado nodo) then Inl (Some (sella nodo (num + 1)), num + 1)
        else if max_profundidad \<noteq> None \<and> max_profundidad = Some (int (profundidad nodo))
        then Inr (resto, visitados, num + 1)
        else
          (case profundo_hijos (expande nodo (modelo P)) resto visitados of
             (frontera', visitados') \<Rightarrow> Inr (frontera', visitados', num + 1)))"

definition busqueda_profundo ::
  "('s, 'a) problema_busqueda \<Rightarrow> int option \<Rightarrow> (('s, 'a) nodo option \<times> nat) option" where
  "busqueda_profundo P max_profundidad =
     ciclo_while (profundo_paso P max_profundidad)
       ([nodo_init (x0 P) None None 0], [x0 P \<mapsto> 0], num_nodos P)"

text \<open>
  \<^verbatim>\<open>for profundidad in range(max_profundidad)\<close>: the depths tried are
  \<open>0, \<dots>, max_profundidad - 1\<close> (none when \<open>max_profundidad \<le> 0\<close>), and the
  problem object, with its counter, is the same one for every call.
\<close>

fun iterativa_ciclo ::
  "('s, 'a) problema_busqueda \<Rightarrow> nat list \<Rightarrow> (('s, 'a) nodo option \<times> nat) option" where
  "iterativa_ciclo P [] = Some (None, num_nodos P)"
| "iterativa_ciclo P (d # ds) =
     (case busqueda_profundo P (Some (int d)) of
        None \<Rightarrow> None
      | Some (Some r, num) \<Rightarrow> Some (Some r, num)
      | Some (None, num) \<Rightarrow> iterativa_ciclo (P\<lparr>num_nodos := num\<rparr>) ds)"

definition busqueda_profundidad_iterativa ::
  "('s, 'a) problema_busqueda \<Rightarrow> int \<Rightarrow> (('s, 'a) nodo option \<times> nat) option" where
  "busqueda_profundidad_iterativa P max_profundidad =
     iterativa_ciclo P [0 ..< nat max_profundidad]"

section \<open>The priority queue of \<^verbatim>\<open>heapq\<close>\<close>

text \<open>
  The frontier of the cost-ordered strategies is a Python list handled by
  \<^verbatim>\<open>heapq.heappush\<close> and \<^verbatim>\<open>heapq.heappop\<close>, holding tuples
  \<^verbatim>\<open>(prioridad, nodo)\<close>.  Tuples compare lexicographically and two nodes compare by
  \<^verbatim>\<open>Nodo.__lt__\<close>, that is by depth.
\<close>

type_synonym ('s, 'a) entrada = "int \<times> ('s, 'a) nodo"

definition nodo_lt :: "('s, 'a) nodo \<Rightarrow> ('s, 'a) nodo \<Rightarrow> bool" where
  "nodo_lt n other = (profundidad n < profundidad other)"

definition entrada_lt :: "('s, 'a) entrada \<Rightarrow> ('s, 'a) entrada \<Rightarrow> bool" where
  "entrada_lt x y = (fst x < fst y \<or> (fst x = fst y \<and> nodo_lt (snd x) (snd y)))"

text \<open>
  \<^verbatim>\<open>heapq._siftdown(heap, startpos, pos)\<close>: the item at \<open>pos\<close> moves towards the
  root while it is smaller than its parent.
\<close>

function siftdown_ciclo ::
  "('s, 'a) entrada list \<Rightarrow> nat \<Rightarrow> ('s, 'a) entrada \<Rightarrow> nat \<Rightarrow> ('s, 'a) entrada list" where
  "siftdown_ciclo heap startpos newitem pos =
     (if pos > startpos then
        let parentpos = (pos - 1) div 2; parent = heap ! parentpos in
        if entrada_lt newitem parent
        then siftdown_ciclo (heap[pos := parent]) startpos newitem parentpos
        else heap[pos := newitem]
      else heap[pos := newitem])"
  by pat_completeness auto
termination
  by (relation "measure (\<lambda>(heap, startpos, newitem, pos). pos)") auto

definition siftdown :: "('s, 'a) entrada list \<Rightarrow> nat \<Rightarrow> nat \<Rightarrow> ('s, 'a) entrada list" where
  "siftdown heap startpos pos = siftdown_ciclo heap startpos (heap ! pos) pos"

text \<open>
  \<^verbatim>\<open>heapq._siftup(heap, pos)\<close>: the smaller child is moved up until a leaf is
  reached, the item is put there and sifted down again.
\<close>

function siftup_ciclo ::
  "('s, 'a) entrada list \<Rightarrow> nat \<Rightarrow> nat \<Rightarrow> ('s, 'a) entrada list \<times> nat" where
  "siftup_ciclo heap endpos pos =
     (let childpos = 2 * pos + 1 in
      if childpos < endpos then
        let rightpos = childpos + 1;
            childpos = (if rightpos < endpos \<and> \<not> entrada_lt (heap ! childpos) (heap ! rightpos)
                        then rightpos else childpos)
        in siftup_ciclo (heap[pos := heap ! childpos]) endpos childpos
      else (heap, pos))"
  by pat_completeness auto
termination
  by (relation "measure (\<lambda>(heap, endpos, pos). endpos - pos)") (auto simp: Let_def)

definition siftup :: "('s, 'a) entrada list \<Rightarrow> nat \<Rightarrow> ('s, 'a) entrada list" where
  "siftup heap pos =
     (let endpos = length heap; startpos = pos; newitem = heap ! pos in
      case siftup_ciclo heap endpos pos of
        (heap', pos') \<Rightarrow> siftdown (heap'[pos' := newitem]) startpos pos')"

definition heappush :: "('s, 'a) entrada list \<Rightarrow> ('s, 'a) entrada \<Rightarrow> ('s, 'a) entrada list" where
  "heappush heap item = siftdown (heap @ [item]) 0 (length heap)"

text \<open>
  \<^verbatim>\<open>heapq.heappop\<close> raises \<^verbatim>\<open>IndexError\<close> on an empty list; that case is
  \<open>None\<close> here.  The searches call it only under \<^verbatim>\<open>while frontera:\<close>, so the
  empty case is where their loops end.
\<close>

definition heappop ::
  "('s, 'a) entrada list \<Rightarrow> (('s, 'a) entrada \<times> ('s, 'a) entrada list) option" where
  "heappop heap =
     (if heap = [] then None
      else
        let lastelt = last heap; heap' = butlast heap in
        if heap' \<noteq> [] then Some (heap' ! 0, siftup (heap'[0 := lastelt]) 0)
        else Some (lastelt, heap'))"

section \<open>Uniform-cost search\<close>

fun costo_uniforme_hijos ::
  "('s, 'a) nodo list \<Rightarrow> ('s, 'a) entrada list \<Rightarrow> ('s \<rightharpoonup> int)
   \<Rightarrow> ('s, 'a) entrada list \<times> ('s \<rightharpoonup> int)" where
  "costo_uniforme_hijos [] frontera visitados = (frontera, visitados)"
| "costo_uniforme_hijos (hijo # hijos) frontera visitados =
     (if (case visitados (estado hijo) of None \<Rightarrow> True | Some c \<Rightarrow> c > costo hijo)
      then costo_uniforme_hijos hijos (heappush frontera (costo hijo, hijo))
             (visitados(estado hijo \<mapsto> costo hijo))
      else costo_uniforme_hijos hijos frontera visitados)"

fun costo_uniforme_paso ::
  "('s, 'a) problema_busqueda \<Rightarrow> ('s, 'a) entrada list \<times> ('s \<rightharpoonup> int) \<times> nat
   \<Rightarrow> (('s, 'a) nodo option \<times> nat) + (('s, 'a) entrada list \<times> ('s \<rightharpoonup> int) \<times> nat)" where
  "costo_uniforme_paso P (frontera, visitados, num) =
     (case heappop frontera of
        None \<Rightarrow> Inl (None, num)
      | Some ((prioridad, nodo), resto) \<Rightarrow>
          if meta P (estado nodo) then Inl (Some (sella nodo (num + 1)), num + 1)
          else
            (case costo_uniforme_hijos (expande nodo (modelo P)) resto visitados of
               (frontera', visitados') \<Rightarrow> Inr (frontera', visitados', num + 1)))"

definition busqueda_costo_uniforme ::
  "('s, 'a) problema_busqueda \<Rightarrow> (('s, 'a) nodo option \<times> nat) option" where
  "busqueda_costo_uniforme P =
     ciclo_while (costo_uniforme_paso P)
       (heappush [] (0, nodo_init (x0 P) None None 0), [x0 P \<mapsto> 0], num_nodos P)"

section \<open>A* search\<close>

fun a_estrella_hijos ::
  "(('s, 'a) nodo \<Rightarrow> int) \<Rightarrow> ('s, 'a) nodo list \<Rightarrow> ('s, 'a) entrada list \<Rightarrow> ('s \<rightharpoonup> int)
   \<Rightarrow> ('s, 'a) entrada list \<times> ('s \<rightharpoonup> int)" where
  "a_estrella_hijos heuristica [] frontera visitados = (frontera, visitados)"
| "a_estrella_hijos heuristica (hijo # hijos) frontera visitados =
     (if (case visitados (estado hijo) of None \<Rightarrow> True | Some c \<Rightarrow> c > costo hijo)
      then a_estrella_hijos heuristica hijos
             (heappush frontera (costo hijo + heuristica hijo, hijo))
             (visitados(estado hijo \<mapsto> costo hijo))
      else a_estrella_hijos heuristica hijos frontera visitados)"

fun a_estrella_paso ::
  "('s, 'a) problema_busqueda \<Rightarrow> (('s, 'a) nodo \<Rightarrow> int)
   \<Rightarrow> ('s, 'a) entrada list \<times> ('s \<rightharpoonup> int) \<times> nat
   \<Rightarrow> (('s, 'a) nodo option \<times> nat) + (('s, 'a) entrada list \<times> ('s \<rightharpoonup> int) \<times> nat)" where
  "a_estrella_paso P heuristica (frontera, visitados, num) =
     (case heappop frontera of
        None \<Rightarrow> Inl (None, num)
      | Some ((prioridad, nodo), resto) \<Rightarrow>
          if meta P (estado nodo) then Inl (Some (sella nodo (num + 1)), num + 1)
          else
            (case a_estrella_hijos heuristica (expande nodo (modelo P)) resto visitados of
               (frontera', visitados') \<Rightarrow> Inr (frontera', visitados', num + 1)))"

definition busqueda_A_estrella ::
  "('s, 'a) problema_busqueda \<Rightarrow> (('s, 'a) nodo \<Rightarrow> int)
   \<Rightarrow> (('s, 'a) nodo option \<times> nat) option" where
  "busqueda_A_estrella P heuristica =
     ciclo_while (a_estrella_paso P heuristica)
       (heappush [] (0, nodo_init (x0 P) None None 0), [x0 P \<mapsto> 0], num_nodos P)"

section \<open>A* search with a heuristic that may fail\<close>

text \<open>
  \<^verbatim>\<open>heuristica\<close> is a function supplied by the caller, and a call of it may raise
  instead of returning a number, for instance on a node it is not defined for.  Here such a
  heuristic returns \<open>None\<close> where the call raises.  \<^verbatim>\<open>busqueda_A_estrella\<close> has no
  \<^verbatim>\<open>try\<close>, so the exception ends the search: its outcome is then
  \<open>Inl ErrorHeuristica\<close> instead of \<open>Inr\<close> of what it returns.
\<close>

datatype excepcion = ErrorHeuristica

text \<open>
  The \<^verbatim>\<open>for hijo in nodo.expande(...)\<close> loop: \<^verbatim>\<open>heuristica(hijo)\<close> is evaluated
  only when the test on \<^verbatim>\<open>visitados\<close> succeeds, as an argument of the push.
\<close>

fun a_estrella_hijos_exc ::
  "(('s, 'a) nodo \<Rightarrow> int option) \<Rightarrow> ('s, 'a) nodo list \<Rightarrow> ('s, 'a) entrada list \<Rightarrow> ('s \<rightharpoonup> int)
   \<Rightarrow> (('s, 'a) entrada list \<times> ('s \<rightharpoonup> int)) option" where
  "a_estrella_hijos_exc heuristica [] frontera visitados = Some (frontera, visitados)"
| "a_estrella_hijos_exc heuristica (hijo # hijos) frontera visitados =
     (if (case visitados (estado hijo) of None \<Rightarrow> True | Some c \<Rightarrow> c > costo hijo)
      then (case heuristica hijo of
              None \<Rightarrow> None
            | Some h \<Rightarrow>
                a_estrella_hijos_exc heuristica hijos
                  (heappush frontera (costo hijo + h, hijo))
                  (visitados(estado hijo \<mapsto> costo hijo)))
      else a_estrella_hijos_exc heuristica hijos frontera visitados)"

fun a_estrella_paso_exc ::
  "('s, 'a) problema_busqueda \<Rightarrow> (('s, 'a) nodo \<Rightarrow> int option)
   \<Rightarrow> ('s, 'a) entrada list \<times> ('s \<rightharpoonup> int) \<times> nat
   \<Rightarrow> (excepcion + (('s, 'a) nodo option \<times> nat)) + (('s, 'a) entrada list \<times> ('s \<rightharpoonup> int) \<times> nat)" where
  "a_estrella_paso_exc P heuristica (frontera, visitados, num) =
     (case heappop frontera of
        None \<Rightarrow> Inl (Inr (None, num))
      | Some ((prioridad, nodo), resto) \<Rightarrow>
          if meta P (estado nodo) then Inl (Inr (Some (sella nodo (num + 1)), num + 1))
          else
            (case a_estrella_hijos_exc heuristica (expande nodo (modelo P)) resto visitados of
               None \<Rightarrow> Inl (Inl ErrorHeuristica)
             | Some (frontera', visitados') \<Rightarrow> Inr (frontera', visitados', num + 1)))"

definition busqueda_A_estrella_exc ::
  "('s, 'a) problema_busqueda \<Rightarrow> (('s, 'a) nodo \<Rightarrow> int option)
   \<Rightarrow> (excepcion + (('s, 'a) nodo option \<times> nat)) option" where
  "busqueda_A_estrella_exc P heuristica =
     ciclo_while (a_estrella_paso_exc P heuristica)
       (heappush [] (0, nodo_init (x0 P) None None 0), [x0 P \<mapsto> 0], num_nodos P)"

section \<open>Uniform-cost search with another order of the queue\<close>

text \<open>
  A* is described as uniform-cost search with one difference: the queue orders by
  \<open>costo + heuristica(nodo)\<close> instead of \<open>costo\<close>, while the map of best costs still
  records the raw \<open>costo\<close>.  Taken literally: the text of \<^verbatim>\<open>busqueda_costo_uniforme\<close>
  with the priority of a pushed entry, \<^verbatim>\<open>hijo.costo\<close> there, replaced by
  \<open>prioridad hijo\<close>, and nothing else changed.  The searches of the source are compared
  with it below.
\<close>

fun prioridad_hijos ::
  "(('s, 'a) nodo \<Rightarrow> int) \<Rightarrow> ('s, 'a) nodo list \<Rightarrow> ('s, 'a) entrada list \<Rightarrow> ('s \<rightharpoonup> int)
   \<Rightarrow> ('s, 'a) entrada list \<times> ('s \<rightharpoonup> int)" where
  "prioridad_hijos prioridad [] frontera visitados = (frontera, visitados)"
| "prioridad_hijos prioridad (hijo # hijos) frontera visitados =
     (if (case visitados (estado hijo) of None \<Rightarrow> True | Some c \<Rightarrow> c > costo hijo)
      then prioridad_hijos prioridad hijos (heappush frontera (prioridad hijo, hijo))
             (visitados(estado hijo \<mapsto> costo hijo))
      else prioridad_hijos prioridad hijos frontera visitados)"

fun prioridad_paso ::
  "('s, 'a) problema_busqueda \<Rightarrow> (('s, 'a) nodo \<Rightarrow> int)
   \<Rightarrow> ('s, 'a) entrada list \<times> ('s \<rightharpoonup> int) \<times> nat
   \<Rightarrow> (('s, 'a) nodo option \<times> nat) + (('s, 'a) entrada list \<times> ('s \<rightharpoonup> int) \<times> nat)" where
  "prioridad_paso P prioridad (frontera, visitados, num) =
     (case heappop frontera of
        None \<Rightarrow> Inl (None, num)
      | Some ((_, nodo), resto) \<Rightarrow>
          if meta P (estado nodo) then Inl (Some (sella nodo (num + 1)), num + 1)
          else
            (case prioridad_hijos prioridad (expande nodo (modelo P)) resto visitados of
               (frontera', visitados') \<Rightarrow> Inr (frontera', visitados', num + 1)))"

definition busqueda_por_prioridad ::
  "('s, 'a) problema_busqueda \<Rightarrow> (('s, 'a) nodo \<Rightarrow> int)
   \<Rightarrow> (('s, 'a) nodo option \<times> nat) option" where
  "busqueda_por_prioridad P prioridad =
     ciclo_while (prioridad_paso P prioridad)
       (heappush [] (0, nodo_init (x0 P) None None 0), [x0 P \<mapsto> 0], num_nodos P)"

text \<open>
  What a loop state holds besides priorities and positions in the heap: the nodes that
  wait in the frontier, the visited map and the counter.
\<close>

definition sin_prioridades ::
  "('s, 'a) entrada list \<times> ('s \<rightharpoonup> int) \<times> nat \<Rightarrow> ('s, 'a) nodo multiset \<times> ('s \<rightharpoonup> int) \<times> nat" where
  "sin_prioridades s = (image_mset snd (mset (fst s)), fst (snd s), snd (snd s))"

section \<open>Paths of a model\<close>

text \<open>
  A path is the list of actions taken from a state.  It is legal when every action is
  among the legal actions of the state it is applied in.
\<close>

fun destino :: "('s, 'a) modelo_busqueda \<Rightarrow> 's \<Rightarrow> 'a list \<Rightarrow> 's" where
  "destino M s [] = s"
| "destino M s (a # as) = destino M (sucesor M s a) as"

fun camino_legal :: "('s, 'a) modelo_busqueda \<Rightarrow> 's \<Rightarrow> 'a list \<Rightarrow> bool" where
  "camino_legal M s [] = True"
| "camino_legal M s (a # as) =
     (a \<in> set (acciones_legales M s) \<and> camino_legal M (sucesor M s a) as)"

fun costo_camino :: "('s, 'a) modelo_busqueda \<Rightarrow> 's \<Rightarrow> 'a list \<Rightarrow> int" where
  "costo_camino M s [] = 0"
| "costo_camino M s (a # as) = costo_local M s a + costo_camino M (sucesor M s a) as"

text \<open>The state space of a problem: the states reachable from the initial state.\<close>

inductive_set alcanzables :: "('s, 'a) problema_busqueda \<Rightarrow> 's set"
  for P :: "('s, 'a) problema_busqueda" where
  inicial: "x0 P \<in> alcanzables P"
| paso: "s \<in> alcanzables P \<Longrightarrow> a \<in> set (acciones_legales (modelo P) s)
         \<Longrightarrow> sucesor (modelo P) s a \<in> alcanzables P"

section \<open>Heap order\<close>

text \<open>
  \<open>entrada_le x y\<close> is Python's \<^verbatim>\<open>not (y < x)\<close> on frontier tuples.  A list is a heap
  when no item is smaller than its parent; the parent of position \<open>i\<close> is
  \<open>(i - 1) div 2\<close>.
\<close>

definition entrada_le :: "('s, 'a) entrada \<Rightarrow> ('s, 'a) entrada \<Rightarrow> bool" where
  "entrada_le x y = (\<not> entrada_lt y x)"

definition heap_ok :: "('s, 'a) entrada list \<Rightarrow> bool" where
  "heap_ok h = (\<forall>i. 0 < i \<and> i < length h \<longrightarrow> entrada_le (h ! ((i - 1) div 2)) (h ! i))"

section \<open>Loop states\<close>

text \<open>The states a loop goes through, from its first state.\<close>

inductive_set estados_ciclo :: "('st \<Rightarrow> 'r + 'st) \<Rightarrow> 'st \<Rightarrow> 'st set"
  for paso :: "'st \<Rightarrow> 'r + 'st" and s0 :: 'st where
  inicio: "s0 \<in> estados_ciclo paso s0"
| siguiente: "s \<in> estados_ciclo paso s0 \<Longrightarrow> paso s = Inr s' \<Longrightarrow> s' \<in> estados_ciclo paso s0"

section \<open>Nodes built by the engine, plans and solutions\<close>

text \<open>
  The nodes the strategies construct: \<^verbatim>\<open>Nodo(problema.x0)\<close> and the children made by
  \<^verbatim>\<open>expande\<close>.
\<close>

inductive_set nodos_motor :: "('s, 'a) modelo_busqueda \<Rightarrow> 's \<Rightarrow> ('s, 'a) nodo set"
  for M :: "('s, 'a) modelo_busqueda" and s0 :: 's where
  raiz: "nodo_init s0 None None 0 \<in> nodos_motor M s0"
| hijo: "n \<in> nodos_motor M s0 \<Longrightarrow> h \<in> set (expande n M) \<Longrightarrow> h \<in> nodos_motor M s0"

text \<open>The actions on the chain of parents of a node, from the root down.\<close>

fun acciones_nodo :: "('s, 'a) nodo \<Rightarrow> 'a list" where
  "acciones_nodo (Nodo e a p c d k) =
     (case p of None \<Rightarrow> []
      | Some q \<Rightarrow> acciones_nodo q @ (case a of None \<Rightarrow> [] | Some x \<Rightarrow> [x]))"

text \<open>The plan \<open>[s0, a1, s1, \<dots>]\<close> that a list of actions traces from a state.\<close>

fun plan_de :: "('s, 'a) modelo_busqueda \<Rightarrow> 's \<Rightarrow> 'a list \<Rightarrow> ('s, 'a) paso list" where
  "plan_de M s [] = [Est s]"
| "plan_de M s (a # as) = Est s # Acc (Some a) # plan_de M (sucesor M s a) as"

text \<open>The sum of the step costs over the edges of a plan.\<close>

fun costo_plan :: "('s, 'a) modelo_busqueda \<Rightarrow> ('s, 'a) paso list \<Rightarrow> int" where
  "costo_plan M (Est s # Acc (Some a) # resto) = costo_local M s a + costo_plan M resto"
| "costo_plan M _ = 0"

text \<open>Replaying a plan from left to right through \<^verbatim>\<open>sucesor\<close>.\<close>

fun reproduce :: "('s, 'a) modelo_busqueda \<Rightarrow> ('s, 'a) paso list \<Rightarrow> bool" where
  "reproduce M [Est s] = True"
| "reproduce M (Est s # Acc (Some a) # Est s' # resto) =
     (s' = sucesor M s a \<and> reproduce M (Est s' # resto))"
| "reproduce M _ = False"

text \<open>A plan starts at the initial state, replays, and ends in a goal state.\<close>

definition plan_valido :: "('s, 'a) problema_busqueda \<Rightarrow> ('s, 'a) paso list \<Rightarrow> bool" where
  "plan_valido P plan =
     (plan \<noteq> [] \<and> hd plan = Est (x0 P) \<and> reproduce (modelo P) plan \<and>
      (case last plan of Est s \<Rightarrow> meta P s | Acc a \<Rightarrow> False))"

text \<open>A returned node is a goal node of the engine, stamped with the counter.\<close>

definition es_solucion :: "('s, 'a) problema_busqueda \<Rightarrow> ('s, 'a) nodo \<Rightarrow> bool" where
  "es_solucion P m =
     (\<exists>n k. n \<in> nodos_motor (modelo P) (x0 P) \<and> m = sella n k \<and> meta P (estado n))"

section \<open>Finite state spaces\<close>

text \<open>A set of states closed under the legal transitions of a model.\<close>

definition cerrado :: "('s, 'a) modelo_busqueda \<Rightarrow> 's set \<Rightarrow> bool" where
  "cerrado M S = (\<forall>s \<in> S. \<forall>a \<in> set (acciones_legales M s). sucesor M s a \<in> S)"

text \<open>
  The measure of a visited map inside a finite closed set \<open>S\<close>: the number of states of
  \<open>S\<close> not yet recorded, then the sum of the recorded values (weighed by \<open>w\<close>).
\<close>

definition medida :: "('v \<Rightarrow> nat) \<Rightarrow> 's set \<Rightarrow> ('s \<rightharpoonup> 'v) \<Rightarrow> nat \<times> nat" where
  "medida w S vis = (card (S - dom vis), \<Sum>s \<in> dom vis. w (the (vis s)))"

section \<open>The invariant of breadth-first search\<close>

text \<open>
  What holds of the frontier \<open>F\<close> and the visited set whenever the loop of
  \<^verbatim>\<open>busqueda_ancho\<close> tests \<^verbatim>\<open>while frontera:\<close>: the frontier holds nodes of the
  engine whose states are visited; no visited state is a goal; a visited state either
  waits in the frontier or has all its successors visited; the depths in the frontier
  increase and span at most two levels; and no legal path reaches the state of a frontier
  node in fewer steps than the depth of the node.
\<close>

definition inv_ancho ::
  "('s, 'a) problema_busqueda \<Rightarrow> ('s, 'a) nodo list \<Rightarrow> 's set \<Rightarrow> bool" where
  "inv_ancho P F vis =
     (set F \<subseteq> nodos_motor (modelo P) (x0 P) \<and> estado ` set F \<subseteq> vis \<and> x0 P \<in> vis \<and>
      (\<forall>s \<in> vis. \<not> meta P s) \<and>
      (\<forall>s \<in> vis. (\<exists>m \<in> set F. estado m = s) \<or>
                  (\<forall>a \<in> set (acciones_legales (modelo P) s). sucesor (modelo P) s a \<in> vis)) \<and>
      sorted (map profundidad F) \<and>
      (F \<noteq> [] \<longrightarrow> profundidad (last F) \<le> profundidad (hd F) + 1) \<and>
      (\<forall>m \<in> set F. \<forall>as. camino_legal (modelo P) (x0 P) as \<and>
           destino (modelo P) (x0 P) as = estado m \<longrightarrow> profundidad m \<le> length as))"

section \<open>Example problems\<close>

text \<open>A chain of two states: the only action of state 0 leads to the goal 1.\<close>

definition cadena :: "(nat, nat) problema_busqueda" where
  "cadena =
     \<lparr>x0 = 0, meta = (\<lambda>s. s = 1),
      modelo = \<lparr>acciones_legales = (\<lambda>s. if s = 0 then [0] else []),
                sucesor = (\<lambda>s a. s + 1),
                costo_local = (\<lambda>s a. 1)\<rparr>,
      num_nodos = 0\<rparr>"

text \<open>
  A diamond with costs: from 0, action 0 leads to 1 (cost 1) and action 1 to 2 (cost 4);
  from 1 the goal 3 costs 5, from 2 it costs 1; the goal has an action back to 0.
\<close>

definition rombo_modelo :: "(nat, nat) modelo_busqueda" where
  "rombo_modelo =
     \<lparr>acciones_legales = (\<lambda>s. if s = 0 then [0, 1] else [0]),
      sucesor = (\<lambda>s a. if s = 0 then (if a = 0 then 1 else 2) else if s = 3 then 0 else 3),
      costo_local = (\<lambda>s a. if s = 0 then (if a = 0 then 1 else 4) else if s = 1 then 5 else 1)\<rparr>"

definition rombo :: "(nat, nat) problema_busqueda" where
  "rombo = \<lparr>x0 = 0, meta = (\<lambda>s. s = 3), modelo = rombo_modelo, num_nodos = 0\<rparr>"

text \<open>
  A heuristic for the diamond: the exact remaining cost of states 1, 2 and 3 (the value on
  the initial state plays no part).
\<close>

definition h_rombo :: "(nat, nat) nodo \<Rightarrow> int" where
  "h_rombo n = (if estado n = 1 then 5 else if estado n = 2 then 1 else 0)"

text \<open>The same diamond without a goal.\<close>

definition rombo_sin_meta :: "(nat, nat) problema_busqueda" where
  "rombo_sin_meta = \<lparr>x0 = 0, meta = (\<lambda>s. False), modelo = rombo_modelo, num_nodos = 0\<rparr>"

text \<open>
  Two paths of cost 10: a node of depth 3 (through 1 and 3) that is pushed first, and a
  node of depth 2 (through 2) that is pushed later.  There is no goal.
\<close>

definition empate_modelo :: "(nat, nat) modelo_busqueda" where
  "empate_modelo =
     \<lparr>acciones_legales = (\<lambda>s. if s = 0 then [0, 1] else if s \<in> {1, 2, 3} then [0] else []),
      sucesor = (\<lambda>s a. if s = 0 then (if a = 0 then 1 else 2)
                        else if s = 1 then 3 else if s = 3 then 4 else 5),
      costo_local = (\<lambda>s a. if s = 0 then (if a = 0 then 1 else 5)
                            else if s = 1 then 1 else if s = 3 then 8 else 5)\<rparr>"

definition empate :: "(nat, nat) problema_busqueda" where
  "empate = \<lparr>x0 = 0, meta = (\<lambda>s. s = 6), modelo = empate_modelo, num_nodos = 0\<rparr>"

section \<open>Properties of the loop combinator\<close>

lemma ciclo_while_invariante:
  assumes "ciclo_while paso s = Some r" and "I s"
    and "\<And>s s'. I s \<Longrightarrow> paso s = Inr s' \<Longrightarrow> I s'"
    and "\<And>s r. I s \<Longrightarrow> paso s = Inl r \<Longrightarrow> Q r"
  shows "Q r"
proof -
  have "paso = paso \<longrightarrow> I s \<longrightarrow> Q r"
  proof (rule ciclo_while.raw_induct
      [where P = "\<lambda>paso' s r. paso' = paso \<longrightarrow> I s \<longrightarrow> Q r", OF _ assms(1)])
    fix cw paso' s r
    assume IH: "\<And>p s r. cw p s = Some r \<Longrightarrow> p = paso \<longrightarrow> I s \<longrightarrow> Q r"
      and cuerpo: "(case paso' s of Inl r \<Rightarrow> Some r | Inr s' \<Rightarrow> cw paso' s') = Some r"
    show "paso' = paso \<longrightarrow> I s \<longrightarrow> Q r"
    proof (intro impI)
      assume eq: "paso' = paso" and i: "I s"
      show "Q r"
      proof (cases "paso s")
        case (Inl r')
        with cuerpo eq have "r' = r" by simp
        with Inl i assms(4) show ?thesis by blast
      next
        case (Inr s')
        with cuerpo eq have "cw paso s' = Some r" by simp
        moreover have "I s'" using assms(3) i Inr by blast
        ultimately show ?thesis using IH by blast
      qed
    qed
  qed
  with assms(1,2) show ?thesis by blast
qed

lemma ciclo_while_termina:
  assumes "wf R" and "I s"
    and "\<And>s s'. I s \<Longrightarrow> paso s = Inr s' \<Longrightarrow> I s' \<and> (s', s) \<in> R"
  shows "\<exists>r. ciclo_while paso s = Some r"
  using assms(1,2)
proof (induction s rule: wf_induct_rule)
  case (less s)
  show ?case
  proof (cases "paso s")
    case (Inl r)
    then show ?thesis by (subst ciclo_while.simps) simp
  next
    case (Inr s')
    with assms(3) less.prems have "I s'" "(s', s) \<in> R" by blast+
    with less.IH obtain r where "ciclo_while paso s' = Some r" by blast
    with Inr show ?thesis by (subst ciclo_while.simps) simp
  qed
qed

text \<open>
  Two loops that take the same steps on the states an invariant allows, and return
  corresponding results, have corresponding values; in particular one returns exactly when
  the other does.
\<close>

lemma ciclo_while_simula:
  assumes "I s"
    and paso_Inr: "\<And>s s'. I s \<Longrightarrow> paso s = Inr s' \<Longrightarrow> I s' \<and> paso' s = Inr s'"
    and paso_Inl: "\<And>s r. I s \<Longrightarrow> paso s = Inl r \<Longrightarrow> paso' s = Inl (f r)"
  shows "ciclo_while paso' s = map_option f (ciclo_while paso s)"
proof (cases "ciclo_while paso s")
  case (Some r)
  have "paso = paso \<longrightarrow> I s \<longrightarrow> ciclo_while paso' s = Some (f r)"
  proof (rule ciclo_while.raw_induct
      [where P = "\<lambda>p s r. p = paso \<longrightarrow> I s \<longrightarrow> ciclo_while paso' s = Some (f r)", OF _ Some])
    fix cw p s r
    assume IH: "\<And>q s r. cw q s = Some r \<Longrightarrow> q = paso \<longrightarrow> I s \<longrightarrow> ciclo_while paso' s = Some (f r)"
      and cuerpo: "(case p s of Inl r \<Rightarrow> Some r | Inr s' \<Rightarrow> cw p s') = Some r"
    show "p = paso \<longrightarrow> I s \<longrightarrow> ciclo_while paso' s = Some (f r)"
    proof (intro impI)
      assume eq: "p = paso" and i: "I s"
      show "ciclo_while paso' s = Some (f r)"
      proof (cases "paso s")
        case (Inl r')
        with cuerpo eq have "r' = r" by simp
        with Inl i paso_Inl have "paso' s = Inl (f r)" by blast
        then show ?thesis by (subst ciclo_while.simps) simp
      next
        case (Inr s')
        with cuerpo eq have "cw paso s' = Some r" by simp
        moreover from paso_Inr[OF i Inr] have s': "I s'" "paso' s = Inr s'" by blast+
        ultimately have "ciclo_while paso' s' = Some (f r)" using IH by blast
        with s'(2) show ?thesis by (subst ciclo_while.simps) simp
      qed
    qed
  qed
  with assms(1) Some show ?thesis by simp
next
  case None
  have "ciclo_while paso' s = None"
  proof (rule ccontr)
    assume "ciclo_while paso' s \<noteq> None"
    then obtain r' where r': "ciclo_while paso' s = Some r'" by blast
    have "paso' = paso' \<longrightarrow> I s \<longrightarrow> (\<exists>r. ciclo_while paso s = Some r)"
    proof (rule ciclo_while.raw_induct
        [where P = "\<lambda>p s r'. p = paso' \<longrightarrow> I s \<longrightarrow> (\<exists>r. ciclo_while paso s = Some r)", OF _ r'])
      fix cw p s r'
      assume IH: "\<And>q s r'. cw q s = Some r' \<Longrightarrow> q = paso' \<longrightarrow> I s \<longrightarrow> (\<exists>r. ciclo_while paso s = Some r)"
        and cuerpo: "(case p s of Inl r \<Rightarrow> Some r | Inr s' \<Rightarrow> cw p s') = Some r'"
      show "p = paso' \<longrightarrow> I s \<longrightarrow> (\<exists>r. ciclo_while paso s = Some r)"
      proof (intro impI)
        assume eq: "p = paso'" and i: "I s"
        show "\<exists>r. ciclo_while paso s = Some r"
        proof (cases "paso s")
          case (Inl r)
          then have "ciclo_while paso s = Some r" by (subst ciclo_while.simps) simp
          then show ?thesis by blast
        next
          case (Inr s')
          from paso_Inr[OF i Inr] have s': "I s'" "paso' s = Inr s'" by blast+
          with cuerpo eq have "cw paso' s' = Some r'" by simp
          with IH s'(1) obtain r where "ciclo_while paso s' = Some r" by blast
          with Inr have "ciclo_while paso s = Some r" by (subst ciclo_while.simps) simp
          then show ?thesis by blast
        qed
      qed
    qed
    with assms(1) None show False by simp
  qed
  with None show ?thesis by simp
qed

section \<open>Iterative deepening and its ceiling\<close>

text \<open>
  C2.  A solution at depth \<open>d\<close> equal to the ceiling \<^verbatim>\<open>max_profundidad\<close> should be
  returned by \<^verbatim>\<open>busqueda_profundidad_iterativa\<close>.  On the chain, whose only solution is
  at depth 1, the call with ceiling 1 tries depth 0 alone and returns \<^verbatim>\<open>None\<close>, although
  \<^verbatim>\<open>busqueda_profundo\<close> with the same bound 1 returns the node of depth 1.
\<close>

theorem C2_iterativa_techo:
  "busqueda_profundidad_iterativa cadena 1 = Some (None, 1) \<and>
   busqueda_profundo cadena (Some 1) =
     Some (Some (Nodo 1 (Some 0) (Some (Nodo 0 None None 0 0 0)) 1 1 2), 2)"
  by (simp add: busqueda_profundidad_iterativa_def busqueda_profundo_def cadena_def
      ciclo_while.simps nodo_init_def expande_def sella_def)

section \<open>Negative depth bounds\<close>

lemma profundo_paso_negativo:
  "m < 0 \<Longrightarrow> profundo_paso P (Some m) = profundo_paso P None"
  by (rule ext) (auto simp: Let_def)

text \<open>
  C7 as stated fails: with \<^verbatim>\<open>max_profundidad = -1\<close> the depth-first search on the chain
  is not rejected; it tests two states and returns the goal node, as the unbounded
  search does.
\<close>

theorem C7_negativo_no_rechazado:
  "busqueda_profundo cadena (Some (- 1)) =
     Some (Some (Nodo 1 (Some 0) (Some (Nodo 0 None None 0 0 0)) 1 1 2), 2) \<and>
   busqueda_profundo cadena (Some (- 1)) = busqueda_profundo cadena None"
  by (simp add: busqueda_profundo_def cadena_def
      ciclo_while.simps nodo_init_def expande_def sella_def)

text \<open>
  C7, amended.  No depth bound is validated.  A negative bound never equals a node's
  depth, so \<^verbatim>\<open>busqueda_profundo\<close> behaves exactly as with \<^verbatim>\<open>max_profundidad = None\<close>;
  \<^verbatim>\<open>busqueda_profundidad_iterativa\<close> iterates over an empty range and returns \<^verbatim>\<open>None\<close>
  without a single goal test.
\<close>

theorem C7_negativo_sin_validar:
  "m < 0 \<Longrightarrow>
     busqueda_profundo P (Some m) = busqueda_profundo P None \<and>
     busqueda_profundidad_iterativa P m = Some (None, num_nodos P)"
  by (simp add: busqueda_profundo_def busqueda_profundidad_iterativa_def profundo_paso_negativo)

theorem C7_negativo_sin_validar_witness:
  "(- 1 :: int) < 0 \<and>
   busqueda_profundo cadena (Some (- 1)) = busqueda_profundo cadena None \<and>
   busqueda_profundidad_iterativa cadena (- 1) = Some (None, num_nodos cadena)"
  using C7_negativo_sin_validar [of "- 1" cadena] by simp

section \<open>The heap of \<^verbatim>\<open>heapq\<close>: contents and order\<close>

declare siftdown_ciclo.simps [simp del] siftup_ciclo.simps [simp del]

lemma entrada_le_refl: "entrada_le x x"
  by (auto simp: entrada_le_def entrada_lt_def nodo_lt_def)

lemma entrada_le_trans: "entrada_le x y \<Longrightarrow> entrada_le y z \<Longrightarrow> entrada_le x z"
  by (auto simp: entrada_le_def entrada_lt_def nodo_lt_def)

lemma entrada_lt_le: "entrada_lt x y \<Longrightarrow> entrada_le x y"
  by (auto simp: entrada_le_def entrada_lt_def nodo_lt_def)

lemma entrada_le_total: "entrada_le x y \<or> entrada_le y x"
  by (auto simp: entrada_le_def entrada_lt_def nodo_lt_def)

lemma mset_intercambio:
  assumes "i < length xs" "j < length xs" "i \<noteq> j"
  shows "mset (xs[i := xs ! j, j := x]) = mset (xs[i := x])"
proof -
  let ?ys = "xs[i := x]"
  have "xs[i := xs ! j, j := x] = ?ys[i := ?ys ! j, j := ?ys ! i]"
    using assms by (simp add: list_update_swap)
  moreover have "mset (?ys[i := ?ys ! j, j := ?ys ! i]) = mset ?ys"
    by (rule mset_swap) (use assms in auto)
  ultimately show ?thesis by (simp only:)
qed

lemma siftdown_ciclo_length [simp]:
  "length (siftdown_ciclo heap startpos newitem pos) = length heap"
  by (induction heap startpos newitem pos rule: siftdown_ciclo.induct)
     (subst siftdown_ciclo.simps, simp add: Let_def)

lemma siftdown_ciclo_mset:
  "pos < length heap \<Longrightarrow>
   mset (siftdown_ciclo heap startpos newitem pos) = mset (heap[pos := newitem])"
proof (induction heap startpos newitem pos rule: siftdown_ciclo.induct)
  case (1 heap startpos newitem pos)
  show ?case
  proof (cases "pos > startpos \<and> entrada_lt newitem (heap ! ((pos - 1) div 2))")
    case True
    then have lt: "(pos - 1) div 2 < pos" by arith
    have "mset (siftdown_ciclo (heap[pos := heap ! ((pos - 1) div 2)]) startpos newitem ((pos - 1) div 2))
          = mset (heap[pos := heap ! ((pos - 1) div 2), (pos - 1) div 2 := newitem])"
      using 1 True lt by simp
    also have "\<dots> = mset (heap[pos := newitem])"
      using lt "1.prems" by (intro mset_intercambio) auto
    finally show ?thesis using True by (subst siftdown_ciclo.simps) (simp add: Let_def)
  next
    case False
    then show ?thesis by (subst siftdown_ciclo.simps) (auto simp add: Let_def)
  qed
qed

lemma siftup_ciclo_length [simp]:
  "length (fst (siftup_ciclo heap endpos pos)) = length heap"
  by (induction heap endpos pos rule: siftup_ciclo.induct)
     (subst siftup_ciclo.simps, simp add: Let_def)

lemma siftup_ciclo_pos:
  "pos < endpos \<Longrightarrow> snd (siftup_ciclo heap endpos pos) < endpos"
  by (induction heap endpos pos rule: siftup_ciclo.induct)
     (subst siftup_ciclo.simps, simp add: Let_def)

lemma siftup_ciclo_mset:
  "pos < length heap \<Longrightarrow> endpos = length heap \<Longrightarrow>
   mset ((fst (siftup_ciclo heap endpos pos))[snd (siftup_ciclo heap endpos pos) := x])
     = mset (heap[pos := x])"
proof (induction heap endpos pos rule: siftup_ciclo.induct)
  case (1 heap endpos pos)
  show ?case
  proof (cases "2 * pos + 1 < endpos")
    case False
    then show ?thesis by (subst (1 2) siftup_ciclo.simps) (simp add: Let_def)
  next
    case True
    define c where "c = (if 2 * pos + 1 + 1 < endpos \<and> \<not> entrada_lt (heap ! (2 * pos + 1)) (heap ! (2 * pos + 1 + 1))
                        then 2 * pos + 1 + 1 else 2 * pos + 1)"
    have c: "c < length heap" "c \<noteq> pos" using True "1.prems" by (auto simp: c_def)
    have eq: "siftup_ciclo heap endpos pos = siftup_ciclo (heap[pos := heap ! c]) endpos c"
      using True by (subst siftup_ciclo.simps) (simp add: Let_def c_def)
    have "mset ((fst (siftup_ciclo (heap[pos := heap ! c]) endpos c))[snd (siftup_ciclo (heap[pos := heap ! c]) endpos c) := x])
        = mset (heap[pos := heap ! c, c := x])"
      using "1.IH"[OF refl True refl refl] c "1.prems" by (simp add: c_def)
    also have "\<dots> = mset (heap[pos := x])"
      using c "1.prems" by (intro mset_intercambio) auto
    finally show ?thesis by (simp add: eq)
  qed
qed

lemma heappush_mset: "mset (heappush heap item) = add_mset item (mset heap)"
  by (simp add: heappush_def siftdown_def siftdown_ciclo_mset)

lemma heappush_length [simp]: "length (heappush heap item) = Suc (length heap)"
  by (simp add: heappush_def siftdown_def)

lemma siftup_mset:
  assumes "pos < length heap"
  shows "mset (siftup heap pos) = mset heap"
proof -
  obtain h' p' where sc: "siftup_ciclo heap (length heap) pos = (h', p')"
    by (cases "siftup_ciclo heap (length heap) pos")
  have p': "p' < length h'"
    using siftup_ciclo_pos[of pos "length heap" heap] siftup_ciclo_length[of heap "length heap" pos]
      assms sc by simp
  have "mset (h'[p' := heap ! pos]) = mset (heap[pos := heap ! pos])"
    using siftup_ciclo_mset[of pos heap "length heap" "heap ! pos"] assms sc by simp
  then show ?thesis
    using p' sc by (simp add: siftup_def siftdown_def siftdown_ciclo_mset Let_def)
qed

lemma heappop_None [simp]: "heappop heap = None \<longleftrightarrow> heap = []"
  by (simp add: heappop_def Let_def)

lemma heappop_mset:
  assumes "heappop heap = Some (e, resto)"
  shows "mset heap = add_mset e (mset resto)"
proof -
  from assms have ne: "heap \<noteq> []" by (auto simp: heappop_def)
  then obtain ys y where h: "heap = ys @ [y]" by (metis rev_exhaust)
  show ?thesis
  proof (cases "ys = []")
    case True
    with assms h show ?thesis by (simp add: heappop_def)
  next
    case False
    then have "e = ys ! 0" "resto = siftup (ys[0 := y]) 0"
      using assms h by (auto simp: heappop_def Let_def)
    moreover have "mset (siftup (ys[0 := y]) 0) = mset (ys[0 := y])"
      using False by (intro siftup_mset) simp
    moreover have "mset (ys[0 := y]) = add_mset y (mset ys - {#ys ! 0#})"
      using False by (simp add: mset_update)
    ultimately show ?thesis using h False
      by (simp add: nth_mem_mset)
  qed
qed

lemma siftdown_ciclo_ok:
  assumes "startpos = 0" "pos < length heap"
    and "\<forall>i. 0 < i \<and> i < length heap \<and> i \<noteq> pos \<longrightarrow> entrada_le (heap ! ((i - 1) div 2)) (heap ! i)"
    and "\<forall>i. 0 < i \<and> i < length heap \<and> (i - 1) div 2 = pos \<longrightarrow> entrada_le newitem (heap ! i)"
    and "\<forall>i. 0 < i \<and> i < length heap \<and> (i - 1) div 2 = pos \<and> 0 < pos
           \<longrightarrow> entrada_le (heap ! ((pos - 1) div 2)) (heap ! i)"
  shows "heap_ok (siftdown_ciclo heap startpos newitem pos)"
  using assms
proof (induction heap startpos newitem pos rule: siftdown_ciclo.induct)
  case (1 heap startpos newitem pos)
  note a = "1.prems"(3) and b = "1.prems"(4) and c = "1.prems"(5)
  show ?case
  proof (cases "pos > startpos \<and> entrada_lt newitem (heap ! ((pos - 1) div 2))")
    case False
    then have res: "siftdown_ciclo heap startpos newitem pos = heap[pos := newitem]"
      by (subst siftdown_ciclo.simps) (auto simp: Let_def)
    have "entrada_le ((heap[pos := newitem]) ! ((i - 1) div 2)) ((heap[pos := newitem]) ! i)"
      if i: "0 < i" "i < length heap" for i
    proof (cases "i = pos")
      case True
      then have "(i - 1) div 2 \<noteq> pos" using i by arith
      moreover have "\<not> entrada_lt newitem (heap ! ((pos - 1) div 2))"
        using False True i "1.prems"(1) by simp
      ultimately show ?thesis using True i by (simp add: entrada_le_def)
    next
      case ne: False
      show ?thesis
      proof (cases "(i - 1) div 2 = pos")
        case True
        then show ?thesis using ne i b by simp
      next
        case False
        then show ?thesis using ne i a by simp
      qed
    qed
    then show ?thesis by (simp add: res heap_ok_def)
  next
    case True
    define pp where "pp = (pos - 1) div 2"
    define p where "p = heap ! pp"
    have pp: "pp < pos" "0 < pos" using True by (auto simp: pp_def)
    have ltp: "entrada_lt newitem p" using True by (simp add: p_def pp_def)
    have res: "siftdown_ciclo heap startpos newitem pos
                 = siftdown_ciclo (heap[pos := p]) startpos newitem pp"
      using True by (subst siftdown_ciclo.simps) (simp add: Let_def p_def pp_def)
    have "heap_ok (siftdown_ciclo (heap[pos := p]) startpos newitem pp)"
      unfolding p_def pp_def
    proof (rule "1.IH"[OF _ refl refl _ "1.prems"(1)], goal_cases)
      case 1 show ?case using True by simp
    next
      case 2 show ?case using True by simp
    next
      case 3 show ?case using pp "1.prems"(2) by (simp add: pp_def)
    next
      case 4
      show ?case
      proof (intro allI impI, elim conjE)
        fix i assume i: "0 < i" "i < length (heap[pos := heap ! ((pos - 1) div 2)])" "i \<noteq> (pos - 1) div 2"
        show "entrada_le (heap[pos := heap ! ((pos - 1) div 2)] ! ((i - 1) div 2))
               (heap[pos := heap ! ((pos - 1) div 2)] ! i)"
        proof (cases "i = pos")
          case True
          then show ?thesis using i pp by (simp add: pp_def entrada_le_refl)
        next
          case ne: False
          show ?thesis
          proof (cases "(i - 1) div 2 = pos")
            case True
            then show ?thesis using ne i c pp "1.prems"(2) by simp
          next
            case False
            then show ?thesis using ne i a by simp
          qed
        qed
      qed
    next
      case 5
      show ?case
      proof (intro allI impI, elim conjE)
        fix i assume i: "0 < i" "i < length (heap[pos := heap ! ((pos - 1) div 2)])" "(i - 1) div 2 = (pos - 1) div 2"
        show "entrada_le newitem (heap[pos := heap ! ((pos - 1) div 2)] ! i)"
        proof (cases "i = pos")
          case True
          then show ?thesis using i ltp by (simp add: p_def pp_def entrada_lt_le)
        next
          case False
          moreover have "i < length heap" using i(2) by simp
          ultimately have "entrada_le (heap ! ((i - 1) div 2)) (heap ! i)" using a i(1) by blast
          then have "entrada_le p (heap ! i)" using i(3) by (simp add: p_def pp_def)
          then have "entrada_le newitem (heap ! i)"
            using ltp entrada_lt_le entrada_le_trans by blast
          then show ?thesis using False by simp
        qed
      qed
    next
      case 6
      show ?case
      proof (intro allI impI, elim conjE)
        fix i assume i: "0 < i" "i < length (heap[pos := heap ! ((pos - 1) div 2)])"
          "(i - 1) div 2 = (pos - 1) div 2" "0 < (pos - 1) div 2"
        have g: "entrada_le (heap ! ((pp - 1) div 2)) p"
          using a i(4) pp "1.prems"(2) by (simp add: p_def pp_def)
        have ne: "(pp - 1) div 2 \<noteq> pos" using pp by arith
        show "entrada_le (heap[pos := heap ! ((pos - 1) div 2)] ! (((pos - 1) div 2 - 1) div 2))
               (heap[pos := heap ! ((pos - 1) div 2)] ! i)"
        proof (cases "i = pos")
          case True
          then show ?thesis using i g ne by (simp add: p_def pp_def)
        next
          case False
          moreover have "i < length heap" using i(2) by simp
          ultimately have "entrada_le (heap ! ((i - 1) div 2)) (heap ! i)" using a i(1) by blast
          then have "entrada_le p (heap ! i)" using i(3) by (simp add: p_def pp_def)
          then have "entrada_le (heap ! ((pp - 1) div 2)) (heap ! i)"
            using g entrada_le_trans by blast
          then show ?thesis using False ne by (simp add: pp_def)
        qed
      qed
    qed
    then show ?thesis by (simp add: res)
  qed
qed

lemma hijos_de: "0 < i \<Longrightarrow> (i - 1) div 2 = pos \<longleftrightarrow> i = 2 * pos + 1 \<or> i = 2 * pos + 2"
  for i pos :: nat
  by arith

lemma padre_no_ultimo: "0 < i \<Longrightarrow> i < Suc n \<Longrightarrow> (i - 1) div 2 \<noteq> n"
  for i n :: nat
  by arith

lemma siftup_ciclo_ok:
  assumes "endpos = length heap" "pos < length heap"
    and "\<forall>i. 0 < i \<and> i < length heap \<and> (i - 1) div 2 \<noteq> pos
           \<longrightarrow> entrada_le (heap ! ((i - 1) div 2)) (heap ! i)"
    and "\<forall>i. 0 < i \<and> i < length heap \<and> (i - 1) div 2 = pos \<and> 0 < pos
           \<longrightarrow> entrada_le (heap ! ((pos - 1) div 2)) (heap ! i)"
  shows "heap_ok (fst (siftup_ciclo heap endpos pos)) \<and>
         (\<forall>i. 0 < i \<and> i < length heap \<longrightarrow> (i - 1) div 2 \<noteq> snd (siftup_ciclo heap endpos pos))"
  using assms
proof (induction heap endpos pos rule: siftup_ciclo.induct)
  case (1 heap endpos pos)
  note a = "1.prems"(3) and c = "1.prems"(4)
  show ?case
  proof (cases "2 * pos + 1 < endpos")
    case False
    then have res: "siftup_ciclo heap endpos pos = (heap, pos)"
      by (subst siftup_ciclo.simps) (simp add: Let_def)
    have hoja: "(i - 1) div 2 \<noteq> pos" if "0 < i" "i < length heap" for i
      using that False "1.prems"(1) by arith
    with a have "heap_ok heap" by (simp add: heap_ok_def)
    with hoja show ?thesis by (simp add: res)
  next
    case True
    define ch where "ch = (if 2 * pos + 1 + 1 < endpos \<and>
                             \<not> entrada_lt (heap ! (2 * pos + 1)) (heap ! (2 * pos + 1 + 1))
                          then 2 * pos + 1 + 1 else 2 * pos + 1)"
    have ch: "ch < length heap" "pos < ch" "(ch - 1) div 2 = pos" "0 < ch"
      using True "1.prems"(1) by (auto simp: ch_def)
    have res: "siftup_ciclo heap endpos pos = siftup_ciclo (heap[pos := heap ! ch]) endpos ch"
      using True by (subst siftup_ciclo.simps) (simp add: Let_def ch_def)
    have hermano: "entrada_le (heap ! ch) (heap ! i)"
      if "0 < i" "i < length heap" "(i - 1) div 2 = pos" for i
    proof -
      from that have i: "i = 2 * pos + 1 \<or> i = 2 * pos + 2" by arith
      show ?thesis
      proof (cases "2 * pos + 1 + 1 < endpos \<and>
                     \<not> entrada_lt (heap ! (2 * pos + 1)) (heap ! (2 * pos + 1 + 1))")
        case True
        then have "ch = 2 * pos + 2" by (simp add: ch_def)
        moreover have "entrada_le (heap ! (2 * pos + 2)) (heap ! (2 * pos + 1))"
          using True by (simp add: entrada_le_def)
        ultimately show ?thesis using i by (auto simp: entrada_le_refl)
      next
        case False
        then have c1: "ch = 2 * pos + 1" by (simp add: ch_def)
        show ?thesis
        proof (cases "i = 2 * pos + 1")
          case True
          then show ?thesis by (simp add: c1 entrada_le_refl)
        next
          case ne: False
          with i have i2: "i = 2 * pos + 2" by simp
          with that(2) "1.prems"(1) False
          have "entrada_lt (heap ! (2 * pos + 1)) (heap ! (2 * pos + 1 + 1))" by simp
          then show ?thesis using entrada_lt_le by (simp add: c1 i2)
        qed
      qed
    qed
    have "heap_ok (fst (siftup_ciclo (heap[pos := heap ! ch]) endpos ch)) \<and>
          (\<forall>i. 0 < i \<and> i < length (heap[pos := heap ! ch]) \<longrightarrow>
              (i - 1) div 2 \<noteq> snd (siftup_ciclo (heap[pos := heap ! ch]) endpos ch))"
    proof (rule "1.IH"[OF refl True refl refl, folded ch_def], goal_cases)
      case 1 show ?case using "1.prems"(1) by simp
    next
      case 2 show ?case using ch by simp
    next
      case 3
      show ?case
      proof (intro allI impI, elim conjE)
        fix i assume i: "0 < i" "i < length (heap[pos := heap ! ch])" "(i - 1) div 2 \<noteq> ch"
        then have len: "i < length heap" by simp
        show "entrada_le (heap[pos := heap ! ch] ! ((i - 1) div 2)) (heap[pos := heap ! ch] ! i)"
        proof (cases "i = pos")
          case True
          then have "(i - 1) div 2 \<noteq> pos" using i by arith
          moreover have "entrada_le (heap ! ((pos - 1) div 2)) (heap ! ch)"
            using c ch True i by blast
          ultimately show ?thesis using True len by simp
        next
          case ne: False
          show ?thesis
          proof (cases "(i - 1) div 2 = pos")
            case True
            then show ?thesis using ne len i hermano "1.prems"(2) by simp
          next
            case False
            then have "entrada_le (heap ! ((i - 1) div 2)) (heap ! i)" using a i(1) len by blast
            then show ?thesis using ne False by simp
          qed
        qed
      qed
    next
      case 4
      show ?case
      proof (intro allI impI, elim conjE)
        fix i assume i: "0 < i" "i < length (heap[pos := heap ! ch])" "(i - 1) div 2 = ch" "0 < ch"
        then have len: "i < length heap" by simp
        have "i \<noteq> pos" using i ch by arith
        moreover have "(i - 1) div 2 \<noteq> pos" using i ch by simp
        then have "entrada_le (heap ! ((i - 1) div 2)) (heap ! i)" using a i(1) len by blast
        ultimately show "entrada_le (heap[pos := heap ! ch] ! ((ch - 1) div 2)) (heap[pos := heap ! ch] ! i)"
          using ch i(3) "1.prems"(2) by simp
      qed
    qed
    then show ?thesis by (simp add: res)
  qed
qed

lemma heap_ok_nil [simp]: "heap_ok []"
  by (simp add: heap_ok_def)

lemma heappush_ok:
  assumes "heap_ok heap"
  shows "heap_ok (heappush heap item)"
  unfolding heappush_def siftdown_def
proof (rule siftdown_ciclo_ok[OF refl], goal_cases)
  case 1 show ?case by simp
next
  case 2
  show ?case
  proof (intro allI impI, elim conjE)
    fix i assume i: "0 < i" "i < length (heap @ [item])" "i \<noteq> length heap"
    then have "i < length heap" by simp
    moreover then have "(i - 1) div 2 < length heap" by arith
    ultimately show "entrada_le ((heap @ [item]) ! ((i - 1) div 2)) ((heap @ [item]) ! i)"
      using assms i(1) by (simp add: heap_ok_def nth_append)
  qed
next
  case 3 show ?case using padre_no_ultimo[of _ "length heap"] by simp blast
next
  case 4 show ?case using padre_no_ultimo[of _ "length heap"] by simp blast
qed

lemma heap_ok_raiz:
  assumes "heap_ok heap" "i < length heap"
  shows "entrada_le (heap ! 0) (heap ! i)"
  using assms(2)
proof (induction i rule: less_induct)
  case (less i)
  show ?case
  proof (cases "i = 0")
    case True
    then show ?thesis by (simp add: entrada_le_refl)
  next
    case False
    then have "(i - 1) div 2 < i" by arith
    moreover from this less.prems have "(i - 1) div 2 < length heap" by simp
    ultimately have "entrada_le (heap ! 0) (heap ! ((i - 1) div 2))" using less.IH by blast
    moreover have "entrada_le (heap ! ((i - 1) div 2)) (heap ! i)"
      using assms(1) False less.prems by (simp add: heap_ok_def)
    ultimately show ?thesis using entrada_le_trans by blast
  qed
qed

lemma siftup_ok:
  assumes "heap \<noteq> []"
    and "\<forall>i. 0 < i \<and> i < length heap \<and> (i - 1) div 2 \<noteq> 0
           \<longrightarrow> entrada_le (heap ! ((i - 1) div 2)) (heap ! i)"
  shows "heap_ok (siftup heap 0)"
proof -
  obtain h' p' where sc: "siftup_ciclo heap (length heap) 0 = (h', p')"
    by (cases "siftup_ciclo heap (length heap) 0")
  have "heap_ok (fst (siftup_ciclo heap (length heap) 0)) \<and>
         (\<forall>i. 0 < i \<and> i < length heap \<longrightarrow> (i - 1) div 2 \<noteq> snd (siftup_ciclo heap (length heap) 0))"
    by (rule siftup_ciclo_ok[OF refl]) (use assms in auto)
  with sc have ok: "heap_ok h'" and hoja: "\<And>i. 0 < i \<Longrightarrow> i < length heap \<Longrightarrow> (i - 1) div 2 \<noteq> p'"
    by auto
  have len: "length h' = length heap" using siftup_ciclo_length[of heap "length heap" 0] sc by simp
  have p': "p' < length h'"
    using siftup_ciclo_pos[of 0 "length heap" heap] assms(1) sc len by simp
  have "heap_ok (siftdown_ciclo (h'[p' := heap ! 0]) 0 ((h'[p' := heap ! 0]) ! p') p')"
  proof (rule siftdown_ciclo_ok[OF refl], goal_cases)
    case 1 show ?case using p' by simp
  next
    case 2
    show ?case
    proof (intro allI impI, elim conjE)
      fix i assume i: "0 < i" "i < length (h'[p' := heap ! 0])" "i \<noteq> p'"
      then have "(i - 1) div 2 \<noteq> p'" using hoja len by simp
      moreover have "entrada_le (h' ! ((i - 1) div 2)) (h' ! i)"
        using ok i by (simp add: heap_ok_def)
      ultimately show "entrada_le (h'[p' := heap ! 0] ! ((i - 1) div 2)) (h'[p' := heap ! 0] ! i)"
        using i by simp
    qed
  next
    case 3 show ?case using hoja len by simp blast
  next
    case 4 show ?case using hoja len by simp blast
  qed
  then show ?thesis using sc p' by (simp add: siftup_def Let_def siftdown_def)
qed


lemma heappop_Some:
  assumes "heap \<noteq> []"
  shows "heappop heap =
    Some (heap ! 0, if butlast heap = [] then [] else siftup ((butlast heap)[0 := last heap]) 0)"
proof (cases "butlast heap = []")
  case True
  with assms have "heap = [last heap]" by (metis append_butlast_last_id append_Nil)
  then have "last heap = heap ! 0" by (metis nth_Cons_0)
  with True assms show ?thesis by (simp add: heappop_def Let_def)
next
  case False
  then have "0 < length (butlast heap)" by (rule length_greater_0_conv[THEN iffD2])
  then have "butlast heap ! 0 = heap ! 0"
    by (rule nth_butlast)
  with False assms show ?thesis by (simp add: heappop_def Let_def)
qed

lemma heappop_ok:
  assumes "heap_ok heap" "heappop heap = Some (e, resto)"
  shows "heap_ok resto" and "\<forall>x \<in> set heap. entrada_le e x"
proof -
  from assms(2) have ne: "heap \<noteq> []" by (auto simp: heappop_def)
  from assms(2) heappop_Some[OF ne] have e0: "e = heap ! 0"
    and r: "resto = (if butlast heap = [] then [] else siftup ((butlast heap)[0 := last heap]) 0)"
    by simp_all
  show "\<forall>x \<in> set heap. entrada_le e x"
  proof
    fix x assume "x \<in> set heap"
    then obtain i where "i < length heap" "x = heap ! i" by (metis in_set_conv_nth)
    then show "entrada_le e x" using heap_ok_raiz[OF assms(1)] e0 by simp
  qed
  show "heap_ok resto"
  proof (cases "butlast heap = []")
    case True
    then show ?thesis by (simp add: r)
  next
    case False
    define ys where "ys = butlast heap"
    define y where "y = last heap"
    have h: "heap = ys @ [y]" using ne by (simp add: ys_def y_def)
    have "heap_ok (siftup (ys[0 := y]) 0)"
    proof (rule siftup_ok)
      show "ys[0 := y] \<noteq> []" using False by (simp add: ys_def)
      show "\<forall>i. 0 < i \<and> i < length (ys[0 := y]) \<and> (i - 1) div 2 \<noteq> 0 \<longrightarrow>
            entrada_le (ys[0 := y] ! ((i - 1) div 2)) (ys[0 := y] ! i)"
      proof (intro allI impI, elim conjE)
        fix i assume i: "0 < i" "i < length (ys[0 := y])" "(i - 1) div 2 \<noteq> 0"
        then have il: "i < length ys" by simp
        then have pl: "(i - 1) div 2 < length ys" by arith
        have "i < length heap" using il h by simp
        then have "entrada_le (heap ! ((i - 1) div 2)) (heap ! i)"
          using assms(1) i(1) unfolding heap_ok_def by blast
        then have "entrada_le (ys ! ((i - 1) div 2)) (ys ! i)"
          using il pl unfolding h by (simp add: nth_append)
        then show "entrada_le (ys[0 := y] ! ((i - 1) div 2)) (ys[0 := y] ! i)"
          using i by simp
      qed
    qed
    then show ?thesis using False by (simp add: r ys_def y_def)
  qed
qed

section \<open>Paths, plans and nodes\<close>

lemma destino_append [simp]: "destino M s (as @ bs) = destino M (destino M s as) bs"
  by (induction as arbitrary: s) auto

lemma camino_legal_append [simp]:
  "camino_legal M s (as @ bs) \<longleftrightarrow> camino_legal M s as \<and> camino_legal M (destino M s as) bs"
  by (induction as arbitrary: s) auto

lemma costo_camino_append [simp]:
  "costo_camino M s (as @ bs) = costo_camino M s as + costo_camino M (destino M s as) bs"
  by (induction as arbitrary: s) auto

lemma plan_de_snoc:
  "plan_de M s (as @ [a]) = plan_de M s as @ [Acc (Some a), Est (sucesor M (destino M s as) a)]"
  by (induction as arbitrary: s) auto

lemma plan_de_no_vacio [simp]: "plan_de M s as \<noteq> []"
  by (cases as) auto

lemma hd_plan_de [simp]: "hd (plan_de M s as) = Est s"
  by (cases as) auto

lemma last_plan_de [simp]: "last (plan_de M s as) = Est (destino M s as)"
  by (induction as arbitrary: s) auto

lemma reproduce_plan_de [simp]: "reproduce M (plan_de M s as)"
proof (induction as arbitrary: s)
  case Nil
  show ?case by simp
next
  case (Cons a as)
  from Cons[of "sucesor M s a"] show ?case by (cases as) auto
qed

lemma costo_plan_plan_de [simp]: "costo_plan M (plan_de M s as) = costo_camino M s as"
  by (induction as arbitrary: s) auto

lemma alcanzables_destino:
  "s \<in> alcanzables P \<Longrightarrow> camino_legal (modelo P) s as \<Longrightarrow> destino (modelo P) s as \<in> alcanzables P"
  by (induction as arbitrary: s) (auto intro: alcanzables.paso)

lemma sella_campos [simp]:
  "estado (sella n k) = estado n" "accion (sella n k) = accion n" "padre (sella n k) = padre n"
  "costo (sella n k) = costo n" "profundidad (sella n k) = profundidad n"
  "nodos_visitados (sella n k) = k"
  by (simp_all add: sella_def)

lemma genera_plan_sella [simp]: "genera_plan (sella n k) = genera_plan n"
  by (cases n) (simp add: sella_def)

lemma acciones_nodo_sella [simp]: "acciones_nodo (sella n k) = acciones_nodo n"
  by (cases n) (simp add: sella_def)

lemma nodo_init_raiz [simp]: "nodo_init s None None c = Nodo s None None 0 0 0"
  by (simp add: nodo_init_def)

lemma expande_hijo:
  "h \<in> set (expande n M) \<longleftrightarrow>
     (\<exists>a \<in> set (acciones_legales M (estado n)).
        h = Nodo (sucesor M (estado n) a) (Some a) (Some n)
              (costo n + costo_local M (estado n) a) (profundidad n + 1) 0)"
  by (auto simp: expande_def nodo_init_def)

lemma nodos_motor_camino:
  assumes "n \<in> nodos_motor M s0"
  shows "camino_legal M s0 (acciones_nodo n) \<and> destino M s0 (acciones_nodo n) = estado n \<and>
         costo_camino M s0 (acciones_nodo n) = costo n \<and>
         length (acciones_nodo n) = profundidad n \<and>
         genera_plan n = plan_de M s0 (acciones_nodo n) \<and> nodos_visitados n = 0"
  using assms
proof (induction rule: nodos_motor.induct)
  case raiz
  show ?case by simp
next
  case (hijo n h)
  from hijo.hyps obtain a where a: "a \<in> set (acciones_legales M (estado n))"
    and h: "h = Nodo (sucesor M (estado n) a) (Some a) (Some n)
              (costo n + costo_local M (estado n) a) (profundidad n + 1) 0"
    by (auto simp: expande_hijo)
  from hijo.IH a show ?case by (simp add: h plan_de_snoc)
qed

section \<open>What the strategies return\<close>

lemma es_solucion_num [simp]: "es_solucion (P\<lparr>num_nodos := k\<rparr>) m = es_solucion P m"
  by (simp add: es_solucion_def)

lemma sella_raiz: "sella (Nodo s None None 0 0 0) 0 = Nodo s None None 0 0 0"
  by (simp add: sella_def)

lemma heappop_vacio [simp]: "heappop [] = None"
  by (simp add: heappop_def)

lemma set_heappush [simp]: "set (heappush heap item) = insert item (set heap)"
  using heappush_mset[of heap item] by (metis set_mset_add_mset_insert set_mset_mset)

lemma set_heappop:
  "heappop heap = Some (e, resto) \<Longrightarrow> set heap = insert e (set resto)"
  using heappop_mset[of heap e resto] by (metis set_mset_add_mset_insert set_mset_mset)

text \<open>Uniform-cost search is A* with the zero heuristic.\<close>

lemma costo_uniforme_hijos_a_estrella:
  "costo_uniforme_hijos hijos frontera visitados = a_estrella_hijos (\<lambda>n. 0) hijos frontera visitados"
  by (induction hijos arbitrary: frontera visitados) auto

lemma costo_uniforme_paso_a_estrella: "costo_uniforme_paso P = a_estrella_paso P (\<lambda>n. 0)"
proof (rule ext)
  fix s :: "('a, 'b) entrada list \<times> ('a \<rightharpoonup> int) \<times> nat"
  obtain fr vis num where s: "s = (fr, vis, num)" by (cases s)
  show "costo_uniforme_paso P s = a_estrella_paso P (\<lambda>n. 0) s"
    unfolding s by (auto simp: costo_uniforme_hijos_a_estrella split: option.splits)
qed

lemma costo_uniforme_a_estrella: "busqueda_costo_uniforme P = busqueda_A_estrella P (\<lambda>n. 0)"
  by (simp add: busqueda_costo_uniforme_def busqueda_A_estrella_def costo_uniforme_paso_a_estrella)

text \<open>The two ways a pass of the A* loop ends.\<close>

lemma a_estrella_paso_Inr:
  assumes "a_estrella_paso P h (fr, vis, num) = Inr s'"
  shows "\<exists>p nodo resto. heappop fr = Some ((p, nodo), resto) \<and> \<not> meta P (estado nodo) \<and>
           s' = (fst (a_estrella_hijos h (expande nodo (modelo P)) resto vis),
                 snd (a_estrella_hijos h (expande nodo (modelo P)) resto vis), num + 1)"
proof (cases "heappop fr")
  case None
  with assms show ?thesis by simp
next
  case (Some x)
  obtain p nodo resto where x: "x = ((p, nodo), resto)" by (cases x) auto
  show ?thesis
  proof (cases "meta P (estado nodo)")
    case True
    with assms Some x show ?thesis by simp
  next
    case False
    with assms Some x show ?thesis by (simp add: split_beta)
  qed
qed

lemma a_estrella_paso_Inl:
  assumes "a_estrella_paso P h (fr, vis, num) = Inl r"
  shows "(fr = [] \<and> r = (None, num)) \<or>
         (\<exists>p nodo resto. heappop fr = Some ((p, nodo), resto) \<and> meta P (estado nodo) \<and>
            r = (Some (sella nodo (num + 1)), num + 1))"
proof (cases "heappop fr")
  case None
  with assms show ?thesis by simp
next
  case (Some x)
  obtain p nodo resto where x: "x = ((p, nodo), resto)" by (cases x) auto
  show ?thesis
  proof (cases "meta P (estado nodo)")
    case True
    with assms Some x show ?thesis by simp
  next
    case False
    with assms Some x show ?thesis by (simp add: split_beta)
  qed
qed

text \<open>Returned nodes are goal nodes built by the engine.\<close>

lemma ancho_hijos_nodos:
  assumes "set hijos \<subseteq> N" "set frontera \<subseteq> N"
    and "ancho_hijos P hijos frontera visitados num = (r, frontera', visitados', num')"
  shows "set frontera' \<subseteq> N \<and> (\<forall>m. r = Some m \<longrightarrow> (\<exists>n \<in> N. m = sella n num' \<and> meta P (estado n)))"
  using assms
proof (induction hijos arbitrary: frontera visitados num)
  case Nil
  then show ?case by simp
next
  case (Cons a hijos)
  show ?case
  proof (cases "estado a \<in> visitados")
    case True
    with Cons.prems have "ancho_hijos P hijos frontera visitados num = (r, frontera', visitados', num')"
      by simp
    from Cons.IH[OF _ _ this] Cons.prems show ?thesis by simp
  next
    case visto: False
    show ?thesis
    proof (cases "meta P (estado a)")
      case True
      with visto Cons.prems show ?thesis by auto
    next
      case False
      with visto Cons.prems
      have "ancho_hijos P hijos (frontera @ [a]) (insert (estado a) visitados) (num + 1)
              = (r, frontera', visitados', num')"
        by simp
      from Cons.IH[OF _ _ this] Cons.prems show ?thesis by simp
    qed
  qed
qed

lemma profundo_hijos_nodos:
  "set (fst (profundo_hijos hijos frontera visitados)) \<subseteq> set frontera \<union> set hijos"
proof (induction hijos arbitrary: frontera visitados)
  case Nil
  show ?case by simp
next
  case (Cons a hijos)
  show ?case
  proof (cases "case visitados (estado a) of None \<Rightarrow> True | Some d \<Rightarrow> d > profundidad a")
    case True
    then have eq: "profundo_hijos (a # hijos) frontera visitados
        = profundo_hijos hijos (frontera @ [a]) (visitados(estado a \<mapsto> profundidad a))"
      by simp
    have "set (fst (profundo_hijos hijos (frontera @ [a]) (visitados(estado a \<mapsto> profundidad a))))
        \<subseteq> set (frontera @ [a]) \<union> set hijos"
      by (rule Cons.IH)
    also have "\<dots> = set frontera \<union> set (a # hijos)" by auto
    finally show ?thesis by (simp only: eq)
  next
    case False
    then have eq: "profundo_hijos (a # hijos) frontera visitados
        = profundo_hijos hijos frontera visitados"
      by simp
    have "set (fst (profundo_hijos hijos frontera visitados)) \<subseteq> set frontera \<union> set hijos"
      by (rule Cons.IH)
    also have "\<dots> \<subseteq> set frontera \<union> set (a # hijos)" by auto
    finally show ?thesis by (simp only: eq)
  qed
qed

lemma a_estrella_hijos_nodos:
  "snd ` set (fst (a_estrella_hijos h hijos frontera visitados)) \<subseteq> snd ` set frontera \<union> set hijos"
proof (induction hijos arbitrary: frontera visitados)
  case Nil
  show ?case by simp
next
  case (Cons a hijos)
  show ?case
  proof (cases "case visitados (estado a) of None \<Rightarrow> True | Some c \<Rightarrow> c > costo a")
    case True
    then have eq: "a_estrella_hijos h (a # hijos) frontera visitados
        = a_estrella_hijos h hijos (heappush frontera (costo a + h a, a))
            (visitados(estado a \<mapsto> costo a))"
      by simp
    have "snd ` set (fst (a_estrella_hijos h hijos (heappush frontera (costo a + h a, a))
            (visitados(estado a \<mapsto> costo a))))
        \<subseteq> snd ` set (heappush frontera (costo a + h a, a)) \<union> set hijos"
      by (rule Cons.IH)
    also have "\<dots> = snd ` set frontera \<union> set (a # hijos)" by auto
    finally show ?thesis by (simp only: eq)
  next
    case False
    then have eq: "a_estrella_hijos h (a # hijos) frontera visitados
        = a_estrella_hijos h hijos frontera visitados"
      by simp
    have "snd ` set (fst (a_estrella_hijos h hijos frontera visitados))
        \<subseteq> snd ` set frontera \<union> set hijos"
      by (rule Cons.IH)
    also have "\<dots> \<subseteq> snd ` set frontera \<union> set (a # hijos)" by auto
    finally show ?thesis by (simp only: eq)
  qed
qed

lemma expande_nodos_motor:
  "n \<in> nodos_motor M s0 \<Longrightarrow> set (expande n M) \<subseteq> nodos_motor M s0"
  by (auto intro: nodos_motor.hijo)

lemma busqueda_ancho_solucion:
  assumes "busqueda_ancho P = Some (Some m, k)"
  shows "es_solucion P m"
proof (cases "meta P (x0 P)")
  case True
  with assms have "m = nodo_init (x0 P) None None 0" by (simp add: busqueda_ancho_def)
  then have "m = sella (nodo_init (x0 P) None None 0) 0" by (simp add: sella_raiz)
  with True show ?thesis
    unfolding es_solucion_def using nodos_motor.raiz[of "x0 P" "modelo P"] by fastforce
next
  case False
  let ?N = "nodos_motor (modelo P) (x0 P)"
  from False assms
  have c: "ciclo_while (ancho_paso P) ([nodo_init (x0 P) None None 0], {x0 P}, num_nodos P + 1)
            = Some (Some m, k)"
    by (simp add: busqueda_ancho_def)
  have "case (Some m, k) of (r, k) \<Rightarrow> \<forall>m. r = Some m \<longrightarrow> es_solucion P m"
  proof (rule ciclo_while_invariante[OF c, where I = "\<lambda>(fr, vis, num). set fr \<subseteq> ?N"], goal_cases)
    case 1
    show ?case using nodos_motor.raiz[of "x0 P" "modelo P"] by simp
  next
    case (2 s s')
    obtain fr vis num where s: "s = (fr, vis, num)" by (cases s)
    obtain fr' vis' num' where s': "s' = (fr', vis', num')" by (cases s')
    from 2 s s' obtain nodo resto where fr: "fr = nodo # resto"
      by (cases fr) auto
    from 2 s s' fr have "ancho_hijos P (expande nodo (modelo P)) resto vis num = (None, fr', vis', num')"
      by (auto split: prod.splits option.splits)
    from ancho_hijos_nodos[OF _ _ this, of ?N] 2(1) s fr expande_nodos_motor[of nodo "modelo P" "x0 P"]
    show ?case by (simp add: s')
  next
    case (3 s r)
    obtain fr vis num where s: "s = (fr, vis, num)" by (cases s)
    show ?case
    proof (cases fr)
      case Nil
      with 3 s show ?thesis by auto
    next
      case (Cons nodo resto)
      with 3 s obtain m' fr' vis' num' where
        h: "ancho_hijos P (expande nodo (modelo P)) resto vis num = (Some m', fr', vis', num')"
        and r: "r = (Some m', num')"
        by (auto split: prod.splits option.splits)
      from ancho_hijos_nodos[OF _ _ h, of ?N] 3(1) s Cons expande_nodos_motor[of nodo "modelo P" "x0 P"]
      show ?thesis by (auto simp: r es_solucion_def)
    qed
  qed
  then show ?thesis by simp
qed

lemma busqueda_profundo_solucion:
  assumes "busqueda_profundo P mp = Some (Some m, k)"
  shows "es_solucion P m"
proof -
  let ?N = "nodos_motor (modelo P) (x0 P)"
  have "case (Some m, k) of (r, k) \<Rightarrow> \<forall>m. r = Some m \<longrightarrow> es_solucion P m"
  proof (rule ciclo_while_invariante[OF assms[unfolded busqueda_profundo_def],
        where I = "\<lambda>(fr, vis, num). set fr \<subseteq> ?N"], goal_cases)
    case 1
    show ?case using nodos_motor.raiz[of "x0 P" "modelo P"] by simp
  next
    case (2 s s')
    obtain fr vis num where s: "s = (fr, vis, num)" by (cases s)
    from 2 s have ne: "fr \<noteq> []" by (auto split: if_splits)
    then have l: "last fr \<in> ?N" and b: "set (butlast fr) \<subseteq> ?N"
      using 2(1) s by (auto dest: in_set_butlastD)
    from l have "set (expande (last fr) (modelo P)) \<subseteq> ?N" by (rule expande_nodos_motor)
    with b profundo_hijos_nodos[of "expande (last fr) (modelo P)" "butlast fr" vis]
    have "set (fst (profundo_hijos (expande (last fr) (modelo P)) (butlast fr) vis)) \<subseteq> ?N"
      by blast
    with 2(2) s ne b show ?case
      by (auto simp: Let_def split: if_splits prod.splits)
  next
    case (3 s r)
    obtain fr vis num where s: "s = (fr, vis, num)" by (cases s)
    show ?case
    proof (cases "fr = []")
      case True
      with 3 s show ?thesis by auto
    next
      case False
      then have "last fr \<in> ?N" using 3(1) s by auto
      with 3(2) s False show ?thesis
        by (auto simp: Let_def es_solucion_def split: if_splits prod.splits)
    qed
  qed
  then show ?thesis by simp
qed

lemma iterativa_ciclo_solucion:
  "iterativa_ciclo P ds = Some (Some m, k) \<Longrightarrow> es_solucion P m"
proof (induction ds arbitrary: P)
  case Nil
  then show ?case by simp
next
  case (Cons d ds)
  show ?case
  proof (cases "busqueda_profundo P (Some (int d))")
    case None
    with Cons.prems show ?thesis by simp
  next
    case (Some res)
    obtain r num where res: "res = (r, num)" by (cases res)
    show ?thesis
    proof (cases r)
      case None
      with Cons.prems Some res have "iterativa_ciclo (P\<lparr>num_nodos := num\<rparr>) ds = Some (Some m, k)"
        by simp
      from Cons.IH[OF this] show ?thesis by simp
    next
      case (Some m')
      with Cons.prems \<open>busqueda_profundo P (Some (int d)) = Some res\<close> res
      have "busqueda_profundo P (Some (int d)) = Some (Some m, k)" by simp
      then show ?thesis by (rule busqueda_profundo_solucion)
    qed
  qed
qed

lemma busqueda_A_estrella_solucion:
  assumes "busqueda_A_estrella P h = Some (Some m, k)"
  shows "es_solucion P m"
proof -
  let ?N = "nodos_motor (modelo P) (x0 P)"
  have "case (Some m, k) of (r, k) \<Rightarrow> \<forall>m. r = Some m \<longrightarrow> es_solucion P m"
  proof (rule ciclo_while_invariante[OF assms[unfolded busqueda_A_estrella_def],
        where I = "\<lambda>(fr, vis, num). snd ` set fr \<subseteq> ?N"], goal_cases)
    case 1
    show ?case using nodos_motor.raiz[of "x0 P" "modelo P"] by simp
  next
    case (2 s s')
    obtain fr vis num where s: "s = (fr, vis, num)" by (cases s)
    from 2(2) s obtain p nodo resto where pop: "heappop fr = Some ((p, nodo), resto)"
      by (auto split: option.splits)
    from set_heappop[OF pop] 2(1) s have l: "nodo \<in> ?N" and b: "snd ` set resto \<subseteq> ?N"
      by auto
    from l have "set (expande nodo (modelo P)) \<subseteq> ?N" by (rule expande_nodos_motor)
    with b a_estrella_hijos_nodos[of h "expande nodo (modelo P)" resto vis]
    have "snd ` set (fst (a_estrella_hijos h (expande nodo (modelo P)) resto vis)) \<subseteq> ?N"
      by blast
    with 2(2) s pop show ?case
      by (auto split: if_splits prod.splits)
  next
    case (3 s r)
    obtain fr vis num where s: "s = (fr, vis, num)" by (cases s)
    show ?case
    proof (cases "heappop fr")
      case None
      with 3 s show ?thesis by auto
    next
      case (Some x)
      then obtain p nodo resto where pop: "heappop fr = Some ((p, nodo), resto)"
        by (cases x) auto
      from set_heappop[OF pop] 3(1) s have "nodo \<in> ?N" by auto
      with 3(2) s pop show ?thesis
        by (auto simp: es_solucion_def split: if_splits prod.splits)
    qed
  qed
  then show ?thesis by simp
qed

lemma es_solucion_plan:
  assumes "es_solucion P m"
  shows "plan_valido P (genera_plan m)"
proof -
  from assms obtain n k where n: "n \<in> nodos_motor (modelo P) (x0 P)" "m = sella n k"
    "meta P (estado n)" by (auto simp: es_solucion_def)
  from nodos_motor_camino[OF n(1)] n(2,3) show ?thesis
    by (simp add: plan_valido_def)
qed

section \<open>Plan validity\<close>

text \<open>
  C4.  For every goal node returned by any of the five strategies, \<^verbatim>\<open>genera_plan\<close> is
  the recursively defined list (the root gives \<open>[state]\<close>, any other node its parent's
  plan followed by its action and state); the plan starts at the initial state of the
  problem, each state is the successor of the one before under the action between them, and
  the last state satisfies the goal predicate.
\<close>

theorem C4_plan_valido:
  assumes "r \<in> {busqueda_ancho P, busqueda_profundo P max_profundidad,
                 busqueda_profundidad_iterativa P techo, busqueda_costo_uniforme P,
                 busqueda_A_estrella P heuristica}"
    and "r = Some (Some m, k)"
  shows "plan_valido P (genera_plan m) \<and>
         genera_plan m =
           (case padre m of None \<Rightarrow> [Est (estado m)]
            | Some q \<Rightarrow> genera_plan q @ [Acc (accion m), Est (estado m)])"
proof
  from assms have "es_solucion P m"
    using busqueda_ancho_solucion[of P m k] busqueda_profundo_solucion[of P max_profundidad m k]
      iterativa_ciclo_solucion[of P "[0 ..< nat techo]" m k]
      busqueda_A_estrella_solucion[of P heuristica m k]
      busqueda_A_estrella_solucion[of P "\<lambda>n. 0" m k]
    by (auto simp: busqueda_profundidad_iterativa_def costo_uniforme_a_estrella)
  then show "plan_valido P (genera_plan m)" by (rule es_solucion_plan)
  show "genera_plan m =
           (case padre m of None \<Rightarrow> [Est (estado m)]
            | Some q \<Rightarrow> genera_plan q @ [Acc (accion m), Est (estado m)])"
    by (cases m) (simp split: option.splits)
qed

lemma rombo_costo_uniforme:
  "busqueda_costo_uniforme rombo =
     Some (Some (Nodo 3 (Some 0) (Some (Nodo 2 (Some 1) (Some (Nodo 0 None None 0 0 0)) 4 1 0)) 5 2 4), 4)"
  by code_simp

theorem C4_plan_valido_witness:
  "plan_valido rombo
     (genera_plan (Nodo 3 (Some 0) (Some (Nodo 2 (Some 1) (Some (Nodo 0 None None 0 0 0)) 4 1 0)) 5 2 4)) \<and>
   genera_plan (Nodo 3 (Some 0) (Some (Nodo 2 (Some 1) (Some (Nodo 0 None None 0 0 0)) 4 1 0)) 5 2 4)
     = [Est (0::nat), Acc (Some (1::nat)), Est 2, Acc (Some 0), Est 3]"
  using C4_plan_valido[of "busqueda_costo_uniforme rombo" rombo None 0 "\<lambda>n. 0", OF _ rombo_costo_uniforme]
  by simp

section \<open>Node invariants\<close>

text \<open>
  C5.  A root node has cost 0, depth 0, no action and no parent; a node made by expansion
  has its parent's cost plus the step cost of its action, and its parent's depth plus one;
  so the cost of every node the engine builds is the sum of the step costs over the edges
  of its plan.
\<close>

theorem C5_invariantes_nodo:
  "nodo_init s None None 0 = Nodo s None None 0 0 0 \<and>
   (\<forall>h \<in> set (expande n M). \<exists>a \<in> set (acciones_legales M (estado n)).
      padre h = Some n \<and> accion h = Some a \<and> estado h = sucesor M (estado n) a \<and>
      costo h = costo n + costo_local M (estado n) a \<and>
      profundidad h = profundidad n + 1) \<and>
   (\<forall>m \<in> nodos_motor M s0.
      costo m = costo_plan M (genera_plan m) \<and>
      (case padre m of
         None \<Rightarrow> costo m = 0 \<and> profundidad m = 0 \<and> accion m = None
       | Some p \<Rightarrow>
           (\<exists>a. accion m = Some a \<and> costo m = costo p + costo_local M (estado p) a) \<and>
           profundidad m = profundidad p + 1))"
proof (intro conjI ballI)
  show "nodo_init s None None 0 = Nodo s None None 0 0 0" by simp
next
  fix h assume "h \<in> set (expande n M)"
  then show "\<exists>a \<in> set (acciones_legales M (estado n)).
      padre h = Some n \<and> accion h = Some a \<and> estado h = sucesor M (estado n) a \<and>
      costo h = costo n + costo_local M (estado n) a \<and>
      profundidad h = profundidad n + 1"
    by (auto simp: expande_hijo)
next
  fix m assume m: "m \<in> nodos_motor M s0"
  from nodos_motor_camino[OF m] show "costo m = costo_plan M (genera_plan m)" by simp
  from m show "case padre m of
         None \<Rightarrow> costo m = 0 \<and> profundidad m = 0 \<and> accion m = None
       | Some p \<Rightarrow>
           (\<exists>a. accion m = Some a \<and> costo m = costo p + costo_local M (estado p) a) \<and>
           profundidad m = profundidad p + 1"
    by (cases rule: nodos_motor.cases) (auto simp: expande_hijo)
qed

theorem C5_invariantes_nodo_witness:
  "costo (Nodo 2 (Some 1) (Some (Nodo 0 None None 0 0 0)) 4 1 0 :: (nat, nat) nodo) =
     costo_plan rombo_modelo [Est 0, Acc (Some 1), Est 2] \<and>
   costo_plan rombo_modelo [Est 0, Acc (Some 1), Est 2] = 4"
proof -
  let ?r = "Nodo 0 None None 0 0 0 :: (nat, nat) nodo"
  let ?h = "Nodo 2 (Some 1) (Some ?r) 4 1 0 :: (nat, nat) nodo"
  have r: "?r \<in> nodos_motor rombo_modelo 0"
    using nodos_motor.raiz[of 0 rombo_modelo] by simp
  have "?h \<in> set (expande ?r rombo_modelo)"
    by (simp add: expande_def nodo_init_def rombo_modelo_def)
  with r have "?h \<in> nodos_motor rombo_modelo 0" by (rule nodos_motor.hijo)
  with C5_invariantes_nodo[of 0 ?r rombo_modelo 0]
  have "costo ?h = costo_plan rombo_modelo (genera_plan ?h)" by blast
  then show ?thesis by (simp add: rombo_modelo_def)
qed

section \<open>The heuristic and the root\<close>

lemma expande_padre: "n' \<in> set (expande n M) \<Longrightarrow> padre n' = Some n"
  by (auto simp: expande_hijo)

lemma a_estrella_hijos_exc_definida:
  "\<forall>n \<in> set hijos. h n = Some (h' n) \<Longrightarrow>
   a_estrella_hijos_exc h hijos frontera visitados = Some (a_estrella_hijos h' hijos frontera visitados)"
  by (induction hijos arbitrary: frontera visitados) auto

lemma a_estrella_exc_simula:
  assumes "\<forall>n \<in> nodos_motor (modelo P) (x0 P). padre n \<noteq> None \<longrightarrow> h n = Some (h' n)"
  shows "busqueda_A_estrella_exc P h = map_option Inr (busqueda_A_estrella P h')"
proof -
  define N where "N = nodos_motor (modelo P) (x0 P)"
  define I :: "('a, 'b) entrada list \<times> ('a \<rightharpoonup> int) \<times> nat \<Rightarrow> bool"
    where "I = (\<lambda>s. snd ` set (fst s) \<subseteq> N)"
  have hijos: "a_estrella_hijos_exc h (expande nodo (modelo P)) resto vis
      = Some (a_estrella_hijos h' (expande nodo (modelo P)) resto vis)"
    if "nodo \<in> N" for nodo resto vis
  proof (rule a_estrella_hijos_exc_definida, rule ballI)
    fix n assume n: "n \<in> set (expande nodo (modelo P))"
    with that have "n \<in> N" unfolding N_def by (rule nodos_motor.hijo)
    moreover from n have "padre n \<noteq> None" by (simp add: expande_padre)
    ultimately show "h n = Some (h' n)" using assms unfolding N_def by blast
  qed
  show ?thesis
    unfolding busqueda_A_estrella_exc_def busqueda_A_estrella_def
  proof (rule ciclo_while_simula[where I = I])
    show "I (heappush [] (0, nodo_init (x0 P) None None 0), [x0 P \<mapsto> 0], num_nodos P)"
      using nodos_motor.raiz[of "x0 P" "modelo P"] by (simp add: I_def N_def)
  next
    fix s s' :: "('a, 'b) entrada list \<times> ('a \<rightharpoonup> int) \<times> nat"
    assume i: "I s" and paso: "a_estrella_paso P h' s = Inr s'"
    obtain fr vis num where s: "s = (fr, vis, num)" by (cases s)
    from a_estrella_paso_Inr[OF paso[unfolded s]] obtain p nodo resto where
      pop: "heappop fr = Some ((p, nodo), resto)" and nm: "\<not> meta P (estado nodo)" and
      s': "s' = (fst (a_estrella_hijos h' (expande nodo (modelo P)) resto vis),
                 snd (a_estrella_hijos h' (expande nodo (modelo P)) resto vis), num + 1)"
      by blast
    from set_heappop[OF pop] i s have l: "nodo \<in> N" and b: "snd ` set resto \<subseteq> N"
      by (auto simp: I_def)
    from l have "set (expande nodo (modelo P)) \<subseteq> N" unfolding N_def by (rule expande_nodos_motor)
    with b a_estrella_hijos_nodos[of h' "expande nodo (modelo P)" resto vis]
    have "snd ` set (fst (a_estrella_hijos h' (expande nodo (modelo P)) resto vis)) \<subseteq> N"
      by blast
    then have "I s'" unfolding s' I_def by simp
    moreover have "a_estrella_paso_exc P h s = Inr s'"
      unfolding s s' using pop nm hijos[OF l] by (simp add: split_beta)
    ultimately show "I s' \<and> a_estrella_paso_exc P h s = Inr s'" by blast
  next
    fix s :: "('a, 'b) entrada list \<times> ('a \<rightharpoonup> int) \<times> nat" and r
    assume i: "I s" and paso: "a_estrella_paso P h' s = Inl r"
    obtain fr vis num where s: "s = (fr, vis, num)" by (cases s)
    from a_estrella_paso_Inl[OF paso[unfolded s]]
    show "a_estrella_paso_exc P h s = Inl (Inr r)"
      unfolding s by auto
  qed
qed

text \<open>With a heuristic that never fails, the search is the one of the section on A*.\<close>

lemma a_estrella_exc_total:
  "busqueda_A_estrella_exc P (\<lambda>n. Some (h n)) = map_option Inr (busqueda_A_estrella P h)"
  by (rule a_estrella_exc_simula) simp

text \<open>A heuristic that fails on a child that is pushed does end the search with the error.\<close>

lemma rombo_exc_error:
  "busqueda_A_estrella_exc rombo (\<lambda>n. None) = Some (Inl ErrorHeuristica)"
  by code_simp

text \<open>
  C10.  A* evaluates the heuristic only on nodes made by \<^verbatim>\<open>expande\<close>, never on the
  root: if the heuristic returns a number on every node of the search that has a parent,
  then the search does not end with the heuristic's error, even when the heuristic fails on
  the root (or on any other parentless node).  Its outcome is that of the search with a
  heuristic that never fails and has the same values on the nodes with a parent, whatever
  value \<open>v\<close> that one takes elsewhere.  The first frontier entry, for the root, has the
  fixed priority 0.
\<close>

theorem C10_heuristica_no_en_raiz:
  assumes "\<forall>n \<in> nodos_motor (modelo P) (x0 P). padre n \<noteq> None \<longrightarrow> heuristica n \<noteq> None"
  shows "busqueda_A_estrella_exc P heuristica \<noteq> Some (Inl ErrorHeuristica) \<and>
         busqueda_A_estrella_exc P heuristica =
           map_option Inr
             (busqueda_A_estrella P (\<lambda>n. case heuristica n of None \<Rightarrow> v | Some h \<Rightarrow> h)) \<and>
         busqueda_A_estrella_exc P heuristica =
           ciclo_while (a_estrella_paso_exc P heuristica)
             ([(0, Nodo (x0 P) None None 0 0 0)], [x0 P \<mapsto> 0], num_nodos P)"
proof -
  have eq: "busqueda_A_estrella_exc P heuristica =
      map_option Inr (busqueda_A_estrella P (\<lambda>n. case heuristica n of None \<Rightarrow> v | Some h \<Rightarrow> h))"
    by (rule a_estrella_exc_simula) (use assms in auto)
  then have "busqueda_A_estrella_exc P heuristica \<noteq> Some (Inl ErrorHeuristica)" by auto
  moreover have "busqueda_A_estrella_exc P heuristica =
      ciclo_while (a_estrella_paso_exc P heuristica)
        ([(0, Nodo (x0 P) None None 0 0 0)], [x0 P \<mapsto> 0], num_nodos P)"
    by (simp add: busqueda_A_estrella_exc_def heappush_def siftdown_def siftdown_ciclo.simps)
  ultimately show ?thesis using eq by blast
qed

theorem C10_heuristica_no_en_raiz_witness:
  "busqueda_A_estrella_exc rombo (\<lambda>n. if padre n = None then None else Some 0) =
     Some (Inr (Some (Nodo 3 (Some 0) (Some (Nodo 2 (Some 1) (Some (Nodo 0 None None 0 0 0)) 4 1 0)) 5 2 4), 4)) \<and>
   (\<lambda>n::(nat, nat) nodo. if padre n = None then None else Some (0::int)) (Nodo (x0 rombo) None None 0 0 0) = None"
proof -
  have h: "(\<lambda>n::(nat, nat) nodo. case (if padre n = None then None else Some (0::int)) of
              None \<Rightarrow> 0 | Some h \<Rightarrow> h) = (\<lambda>n. 0)"
    by auto
  from C10_heuristica_no_en_raiz[of rombo "\<lambda>n. if padre n = None then None else Some 0" 0]
  have "busqueda_A_estrella_exc rombo (\<lambda>n. if padre n = None then None else Some 0) =
     map_option Inr (busqueda_A_estrella rombo (\<lambda>n. 0))"
    unfolding h by simp
  with rombo_costo_uniforme show ?thesis
    by (simp add: costo_uniforme_a_estrella)
qed


section \<open>Order of the frontier\<close>

lemma a_estrella_hijos_heap_ok:
  "heap_ok frontera \<Longrightarrow> heap_ok (fst (a_estrella_hijos h hijos frontera visitados))"
  by (induction hijos arbitrary: frontera visitados) (auto simp: heappush_ok)

lemma a_estrella_estados_heap_ok:
  assumes "s \<in> estados_ciclo (a_estrella_paso P h) (heappush [] e, vis0, num0)"
  shows "heap_ok (fst s)"
  using assms
proof (induction rule: estados_ciclo.induct)
  case inicio
  show ?case by (simp add: heappush_ok)
next
  case (siguiente s s')
  obtain fr vis num where s: "s = (fr, vis, num)" by (cases s)
  from siguiente.hyps(2) s obtain p nodo resto where pop: "heappop fr = Some ((p, nodo), resto)"
    by (auto split: option.splits)
  from siguiente.IH s have "heap_ok fr" by simp
  from this pop have "heap_ok resto" by (rule heappop_ok(1))
  then have "heap_ok (fst (a_estrella_hijos h (expande nodo (modelo P)) resto vis))"
    by (rule a_estrella_hijos_heap_ok)
  with siguiente.hyps(2) s pop show ?case
    by (auto split: if_splits prod.splits)
qed

text \<open>
  C8.  In every state the uniform-cost and A* loops reach, the entry that
  \<^verbatim>\<open>heappop\<close> returns is minimal: no remaining entry has a smaller priority, and none
  with the same priority has a node of smaller depth.
\<close>

theorem C8_desempate_por_profundidad:
  assumes "(frontera, visitados, num) \<in>
             estados_ciclo (costo_uniforme_paso P)
               (heappush [] (0, nodo_init (x0 P) None None 0), [x0 P \<mapsto> 0], num_nodos P) \<union>
             estados_ciclo (a_estrella_paso P heuristica)
               (heappush [] (0, nodo_init (x0 P) None None 0), [x0 P \<mapsto> 0], num_nodos P)"
    and "heappop frontera = Some ((prioridad, nodo), resto)"
  shows "\<forall>(p, n) \<in> set resto.
           \<not> p < prioridad \<and> (p = prioridad \<longrightarrow> \<not> profundidad n < profundidad nodo)"
proof -
  from assms(1) have "heap_ok (fst (frontera, visitados, num))"
    using a_estrella_estados_heap_ok[of "(frontera, visitados, num)" P]
    by (auto simp: costo_uniforme_paso_a_estrella)
  then have "heap_ok frontera" by simp
  from heappop_ok(2)[OF this assms(2)] set_heappop[OF assms(2)]
  have "\<forall>x \<in> set resto. entrada_le (prioridad, nodo) x" by blast
  then show ?thesis
    by (auto simp: entrada_le_def entrada_lt_def nodo_lt_def)
qed

theorem C8_desempate_por_profundidad_witness:
  "heappop
     [(10, Nodo 5 (Some 0) (Some (Nodo 2 (Some 1) (Some (Nodo 0 None None 0 0 0)) 5 1 0)) 10 2 0),
      (10, Nodo 4 (Some 0) (Some (Nodo 3 (Some 0) (Some (Nodo 1 (Some 0)
              (Some (Nodo 0 None None 0 0 0)) 1 1 0)) 2 2 0)) 10 3 0)]
   = Some ((10, Nodo (5::nat) (Some (0::nat)) (Some (Nodo 2 (Some 1) (Some (Nodo 0 None None 0 0 0)) 5 1 0)) 10 2 0),
      [(10, Nodo 4 (Some 0) (Some (Nodo 3 (Some 0) (Some (Nodo 1 (Some 0)
              (Some (Nodo 0 None None 0 0 0)) 1 1 0)) 2 2 0)) 10 3 0)]) \<and>
   \<not> profundidad (Nodo (4::nat) (Some (0::nat)) (Some (Nodo 3 (Some 0) (Some (Nodo 1 (Some 0)
              (Some (Nodo 0 None None 0 0 0)) 1 1 0)) 2 2 0)) 10 3 0)
     < profundidad (Nodo (5::nat) (Some (0::nat)) (Some (Nodo 2 (Some 1) (Some (Nodo 0 None None 0 0 0)) 5 1 0)) 10 2 0)"
proof -
  let ?r = "Nodo 0 None None 0 0 0 :: (nat, nat) nodo"
  let ?n1 = "Nodo 1 (Some 0) (Some ?r) 1 1 0 :: (nat, nat) nodo"
  let ?n2 = "Nodo 2 (Some 1) (Some ?r) 5 1 0 :: (nat, nat) nodo"
  let ?n3 = "Nodo 3 (Some 0) (Some ?n1) 2 2 0 :: (nat, nat) nodo"
  let ?n4 = "Nodo 4 (Some 0) (Some ?n3) 10 3 0 :: (nat, nat) nodo"
  let ?n5 = "Nodo 5 (Some 0) (Some ?n2) 10 2 0 :: (nat, nat) nodo"
  let ?paso = "costo_uniforme_paso empate"
  let ?s0 = "(heappush [] (0, nodo_init (x0 empate) None None 0), [x0 empate \<mapsto> 0], num_nodos empate)"
  let ?E = "estados_ciclo ?paso ?s0"
  note defs = empate_def empate_modelo_def expande_def nodo_init_def heappush_def heappop_def
    siftdown_def siftup_def siftdown_ciclo.simps siftup_ciclo.simps Let_def entrada_lt_def nodo_lt_def
  have e0: "?s0 = ([(0, ?r)], [0 \<mapsto> 0], 0)" by (simp add: defs)
  have p0: "?paso ([(0, ?r)], [0 \<mapsto> 0], 0) = Inr ([(1, ?n1), (5, ?n2)], [0 \<mapsto> 0, 1 \<mapsto> 1, 2 \<mapsto> 5], 1)"
    by (simp add: defs)
  have p1: "?paso ([(1, ?n1), (5, ?n2)], [0 \<mapsto> 0, 1 \<mapsto> 1, 2 \<mapsto> 5], 1)
      = Inr ([(2, ?n3), (5, ?n2)], [0 \<mapsto> 0, 1 \<mapsto> 1, 2 \<mapsto> 5, 3 \<mapsto> 2], 2)"
    by (simp add: defs)
  have p2: "?paso ([(2, ?n3), (5, ?n2)], [0 \<mapsto> 0, 1 \<mapsto> 1, 2 \<mapsto> 5, 3 \<mapsto> 2], 2)
      = Inr ([(5, ?n2), (10, ?n4)], [0 \<mapsto> 0, 1 \<mapsto> 1, 2 \<mapsto> 5, 3 \<mapsto> 2, 4 \<mapsto> 10], 3)"
    by (simp add: defs)
  have p3: "?paso ([(5, ?n2), (10, ?n4)], [0 \<mapsto> 0, 1 \<mapsto> 1, 2 \<mapsto> 5, 3 \<mapsto> 2, 4 \<mapsto> 10], 3)
      = Inr ([(10, ?n5), (10, ?n4)], [0 \<mapsto> 0, 1 \<mapsto> 1, 2 \<mapsto> 5, 3 \<mapsto> 2, 4 \<mapsto> 10, 5 \<mapsto> 10], 4)"
    by (simp add: defs)
  have "?s0 \<in> ?E" by (rule estados_ciclo.inicio)
  then have "([(0, ?r)], [0 \<mapsto> 0], 0) \<in> ?E" unfolding e0 .
  from estados_ciclo.siguiente[OF this p0] have "([(1, ?n1), (5, ?n2)], [0 \<mapsto> 0, 1 \<mapsto> 1, 2 \<mapsto> 5], 1) \<in> ?E" .
  from estados_ciclo.siguiente[OF this p1]
  have "([(2, ?n3), (5, ?n2)], [0 \<mapsto> 0, 1 \<mapsto> 1, 2 \<mapsto> 5, 3 \<mapsto> 2], 2) \<in> ?E" .
  from estados_ciclo.siguiente[OF this p2]
  have "([(5, ?n2), (10, ?n4)], [0 \<mapsto> 0, 1 \<mapsto> 1, 2 \<mapsto> 5, 3 \<mapsto> 2, 4 \<mapsto> 10], 3) \<in> ?E" .
  from estados_ciclo.siguiente[OF this p3]
  have m: "([(10, ?n5), (10, ?n4)], [0 \<mapsto> 0, 1 \<mapsto> 1, 2 \<mapsto> 5, 3 \<mapsto> 2, 4 \<mapsto> 10, 5 \<mapsto> 10], 4) \<in> ?E" .
  have pop: "heappop [(10, ?n5), (10, ?n4)] = Some ((10, ?n5), [(10, ?n4)])"
    by (simp add: defs)
  from C8_desempate_por_profundidad[of "[(10, ?n5), (10, ?n4)]" _ 4 empate "\<lambda>n. 0", OF _ pop] m
  have "\<not> profundidad ?n4 < profundidad ?n5" by simp
  with pop show ?thesis by simp
qed

section \<open>A* and uniform-cost search\<close>

lemma a_estrella_hijos_visitados:
  "snd (a_estrella_hijos h hijos frontera visitados) = snd (a_estrella_hijos h' hijos frontera' visitados)"
  by (induction hijos arbitrary: frontera frontera' visitados) auto

lemma mset_nodos_heappush:
  "image_mset snd (mset (heappush heap item)) = add_mset (snd item) (image_mset snd (mset heap))"
  by (simp add: heappush_mset)

lemma a_estrella_hijos_nodos_mset:
  "image_mset snd (mset frontera) = image_mset snd (mset frontera') \<Longrightarrow>
   image_mset snd (mset (fst (a_estrella_hijos h hijos frontera visitados)))
     = image_mset snd (mset (fst (a_estrella_hijos h' hijos frontera' visitados)))"
  by (induction hijos arbitrary: frontera frontera' visitados) (auto simp: mset_nodos_heappush)

lemma a_estrella_hijos_prioridad_hijos:
  "a_estrella_hijos h hijos frontera visitados
     = prioridad_hijos (\<lambda>n. costo n + h n) hijos frontera visitados"
  by (induction hijos arbitrary: frontera visitados) auto

lemma a_estrella_paso_prioridad_paso:
  "a_estrella_paso P h = prioridad_paso P (\<lambda>n. costo n + h n)"
proof (rule ext)
  fix s :: "('a, 'b) entrada list \<times> ('a \<rightharpoonup> int) \<times> nat"
  obtain fr vis num where s: "s = (fr, vis, num)" by (cases s)
  show "a_estrella_paso P h s = prioridad_paso P (\<lambda>n. costo n + h n) s"
    unfolding s by (auto simp: a_estrella_hijos_prioridad_hijos split: option.splits)
qed

lemma a_estrella_por_prioridad:
  "busqueda_A_estrella P h = busqueda_por_prioridad P (\<lambda>n. costo n + h n)"
  by (simp add: busqueda_A_estrella_def busqueda_por_prioridad_def a_estrella_paso_prioridad_paso)

lemma costo_uniforme_por_prioridad:
  "busqueda_costo_uniforme P = busqueda_por_prioridad P costo"
  using a_estrella_por_prioridad[of P "\<lambda>n. 0"] by (simp add: costo_uniforme_a_estrella)

lemma a_estrella_hijos_entradas:
  "\<forall>(p, n) \<in> set (fst (a_estrella_hijos h hijos frontera visitados)).
      (p, n) \<in> set frontera \<or> (n \<in> set hijos \<and> p = costo n + h n)"
proof (induction hijos arbitrary: frontera visitados)
  case Nil
  show ?case by auto
next
  case (Cons a hijos)
  show ?case
  proof (cases "case visitados (estado a) of None \<Rightarrow> True | Some c \<Rightarrow> c > costo a")
    case True
    then have eq: "a_estrella_hijos h (a # hijos) frontera visitados
        = a_estrella_hijos h hijos (heappush frontera (costo a + h a, a))
            (visitados(estado a \<mapsto> costo a))"
      by simp
    show ?thesis
      unfolding eq
      using Cons.IH[of "heappush frontera (costo a + h a, a)" "visitados(estado a \<mapsto> costo a)"]
      by fastforce
  next
    case False
    then have eq: "a_estrella_hijos h (a # hijos) frontera visitados
        = a_estrella_hijos h hijos frontera visitados"
      by simp
    show ?thesis
      unfolding eq using Cons.IH[of frontera visitados] by fastforce
  qed
qed

lemma a_estrella_hijos_costos:
  "snd (a_estrella_hijos h hijos frontera visitados) s = Some c \<Longrightarrow>
   visitados s = Some c \<or> (\<exists>n \<in> set hijos. estado n = s \<and> costo n = c)"
proof (induction hijos arbitrary: frontera visitados)
  case Nil
  then show ?case by simp
next
  case (Cons a hijos)
  show ?case
  proof (cases "case visitados (estado a) of None \<Rightarrow> True | Some c \<Rightarrow> c > costo a")
    case True
    with Cons.prems have "snd (a_estrella_hijos h hijos (heappush frontera (costo a + h a, a))
            (visitados(estado a \<mapsto> costo a))) s = Some c"
      by simp
    from Cons.IH[OF this]
    have "(visitados(estado a \<mapsto> costo a)) s = Some c \<or> (\<exists>n \<in> set hijos. estado n = s \<and> costo n = c)" .
    then show ?thesis by (cases "s = estado a") auto
  next
    case False
    with Cons.prems have "snd (a_estrella_hijos h hijos frontera visitados) s = Some c" by simp
    from Cons.IH[OF this] show ?thesis by auto
  qed
qed

lemma a_estrella_estados_entradas:
  assumes "s \<in> estados_ciclo (a_estrella_paso P h)
             (heappush [] (0, nodo_init (x0 P) None None 0), [x0 P \<mapsto> 0], num_nodos P)"
  shows "(\<forall>(p, n) \<in> set (fst s). n \<in> nodos_motor (modelo P) (x0 P) \<and>
            p = (if padre n = None then 0 else costo n + h n)) \<and>
         (\<forall>e c. fst (snd s) e = Some c \<longrightarrow>
            (\<exists>n \<in> nodos_motor (modelo P) (x0 P). estado n = e \<and> costo n = c))"
  using assms
proof (induction rule: estados_ciclo.induct)
  case inicio
  have "nodo_init (x0 P) None None (0::int) \<in> nodos_motor (modelo P) (x0 P)"
    by (rule nodos_motor.raiz)
  then have r: "Nodo (x0 P) None None 0 0 0 \<in> nodos_motor (modelo P) (x0 P)" by simp
  have "\<exists>n \<in> nodos_motor (modelo P) (x0 P). estado n = x0 P \<and> costo n = 0"
    by (rule bexI[OF _ r]) simp
  with r show ?case by (auto split: if_splits)
next
  case (siguiente s s')
  let ?N = "nodos_motor (modelo P) (x0 P)"
  obtain fr vis num where s: "s = (fr, vis, num)" by (cases s)
  from a_estrella_paso_Inr[OF siguiente.hyps(2)[unfolded s]] obtain p nodo resto where
    pop: "heappop fr = Some ((p, nodo), resto)" and
    s': "s' = (fst (a_estrella_hijos h (expande nodo (modelo P)) resto vis),
               snd (a_estrella_hijos h (expande nodo (modelo P)) resto vis), num + 1)"
    by blast
  from siguiente.IH s have
    ifr: "\<forall>(p, n) \<in> set fr. n \<in> ?N \<and> p = (if padre n = None then 0 else costo n + h n)" and
    ivis: "\<forall>e c. vis e = Some c \<longrightarrow> (\<exists>n \<in> ?N. estado n = e \<and> costo n = c)"
    by simp_all
  from set_heappop[OF pop] have fr: "set fr = insert (p, nodo) (set resto)" .
  with ifr have nodo: "nodo \<in> ?N" by auto
  have hijos: "n \<in> ?N \<and> padre n \<noteq> None" if "n \<in> set (expande nodo (modelo P))" for n
    using that nodo expande_padre[OF that] by (auto intro: nodos_motor.hijo)
  have fA: "n \<in> ?N \<and> q = (if padre n = None then 0 else costo n + h n)"
    if "(q, n) \<in> set (fst (a_estrella_hijos h (expande nodo (modelo P)) resto vis))" for q n
  proof -
    from a_estrella_hijos_entradas[of h "expande nodo (modelo P)" resto vis] that
    have "(q, n) \<in> set resto \<or> (n \<in> set (expande nodo (modelo P)) \<and> q = costo n + h n)"
      by blast
    then show ?thesis
    proof
      assume "(q, n) \<in> set resto"
      with fr ifr show ?thesis by blast
    next
      assume "n \<in> set (expande nodo (modelo P)) \<and> q = costo n + h n"
      with hijos[of n] show ?thesis by auto
    qed
  qed
  have fB: "\<exists>n \<in> ?N. estado n = e \<and> costo n = c"
    if "snd (a_estrella_hijos h (expande nodo (modelo P)) resto vis) e = Some c" for e c
  proof -
    from a_estrella_hijos_costos[OF that]
    have "vis e = Some c \<or> (\<exists>n \<in> set (expande nodo (modelo P)). estado n = e \<and> costo n = c)" .
    then show ?thesis
    proof
      assume "vis e = Some c"
      with ivis show ?thesis by blast
    next
      assume "\<exists>n \<in> set (expande nodo (modelo P)). estado n = e \<and> costo n = c"
      with hijos show ?thesis by blast
    qed
  qed
  have A: "\<forall>(q, n) \<in> set (fst (a_estrella_hijos h (expande nodo (modelo P)) resto vis)).
      n \<in> ?N \<and> q = (if padre n = None then 0 else costo n + h n)"
  proof
    fix x assume x: "x \<in> set (fst (a_estrella_hijos h (expande nodo (modelo P)) resto vis))"
    obtain q n where qn: "x = (q, n)" by (cases x)
    from fA[OF x[unfolded qn]]
    show "case x of (q, n) \<Rightarrow> n \<in> ?N \<and> q = (if padre n = None then 0 else costo n + h n)"
      unfolding qn by (simp only: prod.case)
  qed
  from fB have B: "\<forall>e c. snd (a_estrella_hijos h (expande nodo (modelo P)) resto vis) e = Some c \<longrightarrow>
      (\<exists>n \<in> ?N. estado n = e \<and> costo n = c)"
    by blast
  from A B show ?case unfolding s' fst_conv snd_conv by (rule conjI)
qed

lemma a_estrella_paso_sin_prioridades:
  "map_sum id sin_prioridades (a_estrella_paso P h s)
     = map_sum id sin_prioridades (costo_uniforme_paso P s)"
proof -
  obtain fr vis num where s: "s = (fr, vis, num)" by (cases s)
  show ?thesis
  proof (cases "heappop fr")
    case None
    then show ?thesis unfolding s by simp
  next
    case (Some x)
    obtain p nodo resto where x: "x = ((p, nodo), resto)" by (cases x) auto
    show ?thesis
    proof (cases "meta P (estado nodo)")
      case True
      with Some x show ?thesis unfolding s by simp
    next
      case False
      let ?hs = "expande nodo (modelo P)"
      have "snd (a_estrella_hijos h ?hs resto vis) = snd (costo_uniforme_hijos ?hs resto vis)"
        unfolding costo_uniforme_hijos_a_estrella by (rule a_estrella_hijos_visitados)
      moreover have "image_mset snd (mset (fst (a_estrella_hijos h ?hs resto vis)))
          = image_mset snd (mset (fst (costo_uniforme_hijos ?hs resto vis)))"
        unfolding costo_uniforme_hijos_a_estrella by (rule a_estrella_hijos_nodos_mset) (rule refl)
      ultimately show ?thesis
        unfolding s using Some x False by (simp add: split_beta sin_prioridades_def)
    qed
  qed
qed

lemma rombo_a_estrella:
  "busqueda_A_estrella rombo h_rombo =
     Some (Some (Nodo 3 (Some 0) (Some (Nodo 2 (Some 1) (Some (Nodo 0 None None 0 0 0)) 4 1 0)) 5 2 3), 3)"
  by code_simp

text \<open>
  C9.  A* with the zero heuristic is uniform-cost search: the same result, node and
  counter, on every problem (so \<^verbatim>\<open>None\<close> exactly when uniform-cost search returns
  \<^verbatim>\<open>None\<close>, and otherwise the same goal node with the same cost).  For any heuristic,
  A* and uniform-cost search differ only in the priority of the entries they push:
  uniform-cost search is the search by priority \<open>costo\<close> and A* the search by priority
  \<open>costo + heuristica\<close>; one pass of the A* loop from any loop state \<open>s\<close> returns what
  a pass of the uniform-cost loop returns from \<open>s\<close>, or leaves the same visited map, the
  same counter and the same nodes in the frontier; and in every state the A* loop reaches,
  each frontier entry carries the priority \<open>costo + heuristica\<close> of its node (0 for the
  root) and each value of the visited map is the raw cost of a node of that state.
\<close>

theorem C9_a_estrella_cero_es_costo_uniforme:
  "busqueda_A_estrella P (\<lambda>n. 0) = busqueda_costo_uniforme P \<and>
   busqueda_costo_uniforme P = busqueda_por_prioridad P costo \<and>
   busqueda_A_estrella P heuristica = busqueda_por_prioridad P (\<lambda>n. costo n + heuristica n) \<and>
   map_sum id sin_prioridades (a_estrella_paso P heuristica s)
     = map_sum id sin_prioridades (costo_uniforme_paso P s) \<and>
   (\<forall>(frontera, visitados, num) \<in>
        estados_ciclo (a_estrella_paso P heuristica)
          (heappush [] (0, nodo_init (x0 P) None None 0), [x0 P \<mapsto> 0], num_nodos P).
      (\<forall>(p, n) \<in> set frontera. n \<in> nodos_motor (modelo P) (x0 P) \<and>
          p = (if padre n = None then 0 else costo n + heuristica n)) \<and>
      (\<forall>e c. visitados e = Some c \<longrightarrow>
          (\<exists>n \<in> nodos_motor (modelo P) (x0 P). estado n = e \<and> costo n = c)))"
proof (intro conjI)
  show "busqueda_A_estrella P (\<lambda>n. 0) = busqueda_costo_uniforme P"
    by (rule costo_uniforme_a_estrella[symmetric])
  show "busqueda_costo_uniforme P = busqueda_por_prioridad P costo"
    by (rule costo_uniforme_por_prioridad)
  show "busqueda_A_estrella P heuristica = busqueda_por_prioridad P (\<lambda>n. costo n + heuristica n)"
    by (rule a_estrella_por_prioridad)
  show "map_sum id sin_prioridades (a_estrella_paso P heuristica s)
     = map_sum id sin_prioridades (costo_uniforme_paso P s)"
    by (rule a_estrella_paso_sin_prioridades)
  show "\<forall>(frontera, visitados, num) \<in>
        estados_ciclo (a_estrella_paso P heuristica)
          (heappush [] (0, nodo_init (x0 P) None None 0), [x0 P \<mapsto> 0], num_nodos P).
      (\<forall>(p, n) \<in> set frontera. n \<in> nodos_motor (modelo P) (x0 P) \<and>
          p = (if padre n = None then 0 else costo n + heuristica n)) \<and>
      (\<forall>e c. visitados e = Some c \<longrightarrow>
          (\<exists>n \<in> nodos_motor (modelo P) (x0 P). estado n = e \<and> costo n = c))"
  proof (rule ballI)
    fix x
    assume x: "x \<in> estados_ciclo (a_estrella_paso P heuristica)
          (heappush [] (0, nodo_init (x0 P) None None 0), [x0 P \<mapsto> 0], num_nodos P)"
    obtain fr vis num where s: "x = (fr, vis, num)" by (cases x)
    from a_estrella_estados_entradas[OF x] show "case x of (frontera, visitados, num) \<Rightarrow>
      (\<forall>(p, n) \<in> set frontera. n \<in> nodos_motor (modelo P) (x0 P) \<and>
          p = (if padre n = None then 0 else costo n + heuristica n)) \<and>
      (\<forall>e c. visitados e = Some c \<longrightarrow>
          (\<exists>n \<in> nodos_motor (modelo P) (x0 P). estado n = e \<and> costo n = c))"
      unfolding s by simp
  qed
qed

theorem C9_a_estrella_cero_es_costo_uniforme_witness:
  "busqueda_por_prioridad rombo (\<lambda>n. costo n + h_rombo n) =
     Some (Some (Nodo 3 (Some 0) (Some (Nodo 2 (Some 1) (Some (Nodo 0 None None 0 0 0)) 4 1 0)) 5 2 3), 3) \<and>
   busqueda_por_prioridad rombo costo =
     Some (Some (Nodo 3 (Some 0) (Some (Nodo 2 (Some 1) (Some (Nodo 0 None None 0 0 0)) 4 1 0)) 5 2 4), 4) \<and>
   ([(5, Nodo 2 (Some 1) (Some (Nodo 0 None None 0 0 0)) 4 1 0),
     (6, Nodo 1 (Some 0) (Some (Nodo 0 None None 0 0 0)) 1 1 0)], [0 \<mapsto> 0, 1 \<mapsto> 1, 2 \<mapsto> 4], 1)
     \<in> estados_ciclo (a_estrella_paso rombo h_rombo)
         (heappush [] (0, nodo_init (x0 rombo) None None 0), [x0 rombo \<mapsto> 0], num_nodos rombo) \<and>
   (5::int) = costo (Nodo (2::nat) (Some (1::nat)) (Some (Nodo 0 None None 0 0 0)) 4 1 0)
              + h_rombo (Nodo 2 (Some 1) (Some (Nodo 0 None None 0 0 0)) 4 1 0)"
proof -
  let ?r = "Nodo 0 None None 0 0 0 :: (nat, nat) nodo"
  let ?n1 = "Nodo 1 (Some 0) (Some ?r) 1 1 0 :: (nat, nat) nodo"
  let ?n2 = "Nodo 2 (Some 1) (Some ?r) 4 1 0 :: (nat, nat) nodo"
  let ?s0 = "(heappush [] (0, nodo_init (x0 rombo) None None 0), [x0 rombo \<mapsto> 0], num_nodos rombo)"
  let ?s1 = "([(5, ?n2), (6, ?n1)], [0 \<mapsto> 0, 1 \<mapsto> 1, 2 \<mapsto> 4], 1::nat)"
  let ?E = "estados_ciclo (a_estrella_paso rombo h_rombo) ?s0"
  note defs = rombo_def rombo_modelo_def h_rombo_def expande_def nodo_init_def heappush_def
    heappop_def siftdown_def siftup_def siftdown_ciclo.simps siftup_ciclo.simps Let_def
    entrada_lt_def nodo_lt_def
  note c9 = C9_a_estrella_cero_es_costo_uniforme[of rombo h_rombo ?s0]
  have p0: "a_estrella_paso rombo h_rombo ?s0 = Inr ?s1" by (simp add: defs)
  have "?s0 \<in> ?E" by (rule estados_ciclo.inicio)
  from estados_ciclo.siguiente[OF this p0] have m: "?s1 \<in> ?E" .
  from c9 have "\<forall>(frontera, visitados, num) \<in> ?E.
      (\<forall>(p, n) \<in> set frontera. n \<in> nodos_motor (modelo rombo) (x0 rombo) \<and>
          p = (if padre n = None then 0 else costo n + h_rombo n)) \<and>
      (\<forall>e c. visitados e = Some c \<longrightarrow>
          (\<exists>n \<in> nodos_motor (modelo rombo) (x0 rombo). estado n = e \<and> costo n = c))"
    by (elim conjE)
  with m have "\<forall>(p, n) \<in> set [(5, ?n2), (6, ?n1)].
      n \<in> nodos_motor (modelo rombo) (x0 rombo) \<and> p = (if padre n = None then 0 else costo n + h_rombo n)"
    by blast
  then have e: "(5::int) = costo ?n2 + h_rombo ?n2" by simp
  from c9 have "busqueda_por_prioridad rombo (\<lambda>n. costo n + h_rombo n) = busqueda_A_estrella rombo h_rombo"
    by simp
  with rombo_a_estrella have a: "busqueda_por_prioridad rombo (\<lambda>n. costo n + h_rombo n) =
     Some (Some (Nodo 3 (Some 0) (Some ?n2) 5 2 3), 3)" by simp
  from c9 have "busqueda_por_prioridad rombo costo = busqueda_costo_uniforme rombo"
    by simp
  with rombo_costo_uniforme have u: "busqueda_por_prioridad rombo costo =
     Some (Some (Nodo 3 (Some 0) (Some ?n2) 5 2 4), 4)" by simp
  from a u m e show ?thesis by blast
qed


section \<open>Termination without a solution\<close>

lemma cerrado_alcanzables: "cerrado (modelo P) (alcanzables P)"
  by (auto simp: cerrado_def intro: alcanzables.paso)

lemma expande_estados:
  "cerrado M S \<Longrightarrow> estado n \<in> S \<Longrightarrow> estado ` set (expande n M) \<subseteq> S"
  by (auto simp: cerrado_def expande_hijo)

text \<open>Breadth-first search.\<close>

lemma ancho_hijos_progreso:
  assumes "ancho_hijos P hijos frontera visitados num = (None, frontera', visitados', num')"
    and "estado ` set hijos \<subseteq> S" "estado ` set frontera \<subseteq> S" "visitados \<subseteq> S"
  shows "estado ` set frontera' \<subseteq> S \<and> visitados' \<subseteq> S \<and> visitados \<subseteq> visitados' \<and>
         (visitados' = visitados \<longrightarrow> frontera' = frontera)"
  using assms
proof (induction hijos arbitrary: frontera visitados num)
  case Nil
  then show ?case by simp
next
  case (Cons a hijos)
  show ?case
  proof (cases "estado a \<in> visitados")
    case True
    with Cons.prems(1)
    have "ancho_hijos P hijos frontera visitados num = (None, frontera', visitados', num')"
      by simp
    from Cons.IH[OF this] Cons.prems show ?thesis by simp
  next
    case visto: False
    show ?thesis
    proof (cases "meta P (estado a)")
      case True
      with visto Cons.prems(1) show ?thesis by simp
    next
      case False
      with visto Cons.prems(1)
      have "ancho_hijos P hijos (frontera @ [a]) (insert (estado a) visitados) (num + 1)
              = (None, frontera', visitados', num')"
        by simp
      from Cons.IH[OF this] Cons.prems(2-) visto show ?thesis by auto
    qed
  qed
qed

lemma ancho_hijos_sin_meta:
  assumes "estado ` set hijos \<subseteq> S" "\<forall>s \<in> S. \<not> meta P s"
  shows "fst (ancho_hijos P hijos frontera visitados num) = None"
  using assms(1)
  by (induction hijos arbitrary: frontera visitados num) (use assms(2) in auto)

lemma ancho_termina:
  assumes "finite S" "cerrado (modelo P) S" "\<forall>s \<in> S. \<not> meta P s"
    and "estado ` set frontera \<subseteq> S" "visitados \<subseteq> S"
  shows "\<exists>k. ciclo_while (ancho_paso P) (frontera, visitados, num) = Some (None, k)"
proof -
  let ?I = "\<lambda>(fr, vis, num :: nat). estado ` set fr \<subseteq> S \<and> vis \<subseteq> S"
  let ?R = "inv_image (less_than <*lex*> less_than)
              (\<lambda>(fr, vis, num :: nat). (card (S - vis), length fr))"
  have paso: "?I s' \<and> (s', s) \<in> ?R" if i: "?I s" and p: "ancho_paso P s = Inr s'" for s s'
  proof -
    obtain fr vis num where s: "s = (fr, vis, num)" by (cases s)
    obtain fr' vis' num' where s': "s' = (fr', vis', num')" by (cases s')
    from p s obtain nodo resto where fr: "fr = nodo # resto" by (cases fr) auto
    from p s s' fr
    have h: "ancho_hijos P (expande nodo (modelo P)) resto vis num = (None, fr', vis', num')"
      by (auto split: prod.splits option.splits)
    have "estado ` set (expande nodo (modelo P)) \<subseteq> S"
      using expande_estados[OF assms(2), of nodo] i s fr by simp
    from ancho_hijos_progreso[OF h this] i s fr
    have r: "estado ` set fr' \<subseteq> S" "vis' \<subseteq> S" "vis \<subseteq> vis'" "vis' = vis \<longrightarrow> fr' = resto"
      by auto
    have "(card (S - vis'), length fr') = (card (S - vis), length fr') \<and> fr' = resto
          \<or> card (S - vis') < card (S - vis)"
    proof (cases "vis' = vis")
      case True
      with r show ?thesis by simp
    next
      case False
      with r have "S - vis' \<subset> S - vis" by blast
      then show ?thesis using assms(1) by (simp add: psubset_card_mono)
    qed
    then have "(s', s) \<in> ?R" by (auto simp: s s' fr)
    with r show ?thesis by (simp add: s')
  qed
  have i0: "?I (frontera, visitados, num)" using assms by simp
  have "\<exists>r. ciclo_while (ancho_paso P) (frontera, visitados, num) = Some r"
  proof (rule ciclo_while_termina[where R = ?R and I = ?I])
    show "wf ?R" by (intro wf_inv_image wf_lex_prod wf_less_than)
    show "?I (frontera, visitados, num)" by (rule i0)
    fix s s' assume "?I s" "ancho_paso P s = Inr s'"
    then show "?I s' \<and> (s', s) \<in> ?R" by (rule paso)
  qed
  then obtain r where r: "ciclo_while (ancho_paso P) (frontera, visitados, num) = Some r" ..
  have "fst r = None"
  proof (rule ciclo_while_invariante[OF r, where I = ?I])
    show "?I (frontera, visitados, num)" by (rule i0)
  next
    fix s s' assume "?I s" "ancho_paso P s = Inr s'"
    then show "?I s'" using paso by blast
  next
    fix s r assume i: "?I s" and p: "ancho_paso P s = Inl r"
    obtain fr vis num where s: "s = (fr, vis, num)" by (cases s)
    show "fst r = None"
    proof (cases fr)
      case Nil
      with p s show ?thesis by auto
    next
      case (Cons nodo resto)
      have "estado ` set (expande nodo (modelo P)) \<subseteq> S"
        using expande_estados[OF assms(2), of nodo] i s Cons by simp
      from ancho_hijos_sin_meta[OF this assms(3), of resto vis num] p s Cons
      show ?thesis by (auto split: prod.splits option.splits)
    qed
  qed
  with r show ?thesis by (cases r) auto
qed

lemma medida_actualiza:
  assumes "finite S" "dom vis \<subseteq> S" "s \<in> S"
    and "case vis s of None \<Rightarrow> True | Some c0 \<Rightarrow> w c < w c0"
  shows "(medida w S (vis(s \<mapsto> c)), medida w S vis) \<in> less_than <*lex*> less_than"
proof (cases "vis s")
  case None
  then have "s \<in> S - dom vis" using assms(3) by auto
  then have "S - dom (vis(s \<mapsto> c)) \<subset> S - dom vis" by auto
  then have "card (S - dom (vis(s \<mapsto> c))) < card (S - dom vis)"
    using assms(1) by (intro psubset_card_mono) auto
  then show ?thesis by (simp add: medida_def)
next
  case (Some c0)
  then have d: "dom (vis(s \<mapsto> c)) = dom vis" by auto
  have f: "finite (dom vis)" using assms(1,2) by (rule rev_finite_subset)
  have sd: "s \<in> dom vis" using Some by auto
  have "(\<Sum>x \<in> dom vis. w (the ((vis(s \<mapsto> c)) x)))
          = w c + (\<Sum>x \<in> dom vis - {s}. w (the ((vis(s \<mapsto> c)) x)))"
    using sum.remove[OF f sd, of "\<lambda>x. w (the ((vis(s \<mapsto> c)) x))"] by simp
  also have "(\<Sum>x \<in> dom vis - {s}. w (the ((vis(s \<mapsto> c)) x)))
          = (\<Sum>x \<in> dom vis - {s}. w (the (vis x)))"
    by (rule sum.cong) auto
  finally have e1: "(\<Sum>x \<in> dom vis. w (the ((vis(s \<mapsto> c)) x)))
          = w c + (\<Sum>x \<in> dom vis - {s}. w (the (vis x)))" .
  have e2: "(\<Sum>x \<in> dom vis. w (the (vis x)))
          = w c0 + (\<Sum>x \<in> dom vis - {s}. w (the (vis x)))"
    using sum.remove[OF f sd, of "\<lambda>x. w (the (vis x))"] Some by simp
  have lt: "w c < w c0" using assms(4) Some by simp
  have m1: "medida w S (vis(s \<mapsto> c))
      = (card (S - dom vis), w c + (\<Sum>x \<in> dom vis - {s}. w (the (vis x))))"
    unfolding medida_def d e1 ..
  have m2: "medida w S vis
      = (card (S - dom vis), w c0 + (\<Sum>x \<in> dom vis - {s}. w (the (vis x))))"
    unfolding medida_def e2 ..
  show ?thesis unfolding m1 m2 using lt by simp
qed

lemma trans_medida: "trans (less_than <*lex*> less_than)"
  by (intro trans_lex_prod trans_less_than)

text \<open>Depth-first search.\<close>

lemma profundo_hijos_progreso:
  assumes "finite S" "estado ` set hijos \<subseteq> S" "estado ` set frontera \<subseteq> S" "dom visitados \<subseteq> S"
    and "profundo_hijos hijos frontera visitados = (frontera', visitados')"
  shows "estado ` set frontera' \<subseteq> S \<and> dom visitados' \<subseteq> S \<and>
         ((visitados' = visitados \<and> frontera' = frontera) \<or>
          (medida (\<lambda>d. d) S visitados', medida (\<lambda>d. d) S visitados) \<in> less_than <*lex*> less_than)"
  using assms(2-)
proof (induction hijos arbitrary: frontera visitados)
  case Nil
  then show ?case by simp
next
  case (Cons a hijos)
  show ?case
  proof (cases "case visitados (estado a) of None \<Rightarrow> True | Some d \<Rightarrow> d > profundidad a")
    case False
    with Cons.prems(4) have "profundo_hijos hijos frontera visitados = (frontera', visitados')"
      by simp
    from Cons.IH[OF _ _ _ this] Cons.prems(1-3) show ?thesis by simp
  next
    case True
    let ?v = "visitados(estado a \<mapsto> profundidad a)"
    from True Cons.prems(4)
    have h: "profundo_hijos hijos (frontera @ [a]) ?v = (frontera', visitados')"
      by simp
    have a: "estado a \<in> S" using Cons.prems(1) by simp
    have "case visitados (estado a) of None \<Rightarrow> True
          | Some c0 \<Rightarrow> (\<lambda>d. d) (profundidad a) < (\<lambda>d. d) c0"
      using True by (simp split: option.splits)
    with assms(1) Cons.prems(3) a
    have m: "(medida (\<lambda>d. d) S ?v, medida (\<lambda>d. d) S visitados) \<in> less_than <*lex*> less_than"
      by (rule medida_actualiza)
    have f: "estado ` set (frontera @ [a]) \<subseteq> S" using Cons.prems(2) a by simp
    have d: "dom ?v \<subseteq> S" using Cons.prems(3) a by simp
    have hs: "estado ` set hijos \<subseteq> S" using Cons.prems(1) by simp
    have r: "estado ` set frontera' \<subseteq> S \<and> dom visitados' \<subseteq> S \<and>
         ((visitados' = ?v \<and> frontera' = frontera @ [a]) \<or>
          (medida (\<lambda>d. d) S visitados', medida (\<lambda>d. d) S ?v) \<in> less_than <*lex*> less_than)"
      using hs f d h by (rule Cons.IH)
    have "(medida (\<lambda>d. d) S visitados', medida (\<lambda>d. d) S visitados) \<in> less_than <*lex*> less_than"
    proof (cases "visitados' = ?v")
      case True
      with m show ?thesis by (simp only:)
    next
      case False
      with r have "(medida (\<lambda>d. d) S visitados', medida (\<lambda>d. d) S ?v) \<in> less_than <*lex*> less_than"
        by (elim conjE disjE) simp_all
      from transD[OF trans_medida this m] show ?thesis .
    qed
    with r show ?thesis by (intro conjI disjI2) (elim conjE, assumption)+
  qed
qed

lemma profundo_paso_Inr:
  assumes "profundo_paso P mp (fr, vis, num) = Inr s'"
  shows "fr \<noteq> [] \<and> \<not> meta P (estado (last fr)) \<and>
         s' = (if mp = Some (int (profundidad (last fr)))
               then (butlast fr, vis, num + 1)
               else (fst (profundo_hijos (expande (last fr) (modelo P)) (butlast fr) vis),
                     snd (profundo_hijos (expande (last fr) (modelo P)) (butlast fr) vis),
                     num + 1))"
proof (cases "fr = []")
  case True
  with assms show ?thesis by simp
next
  case ne: False
  show ?thesis
  proof (cases "meta P (estado (last fr))")
    case True
    with assms ne show ?thesis by (simp add: Let_def)
  next
    case nm: False
    show ?thesis
    proof (cases "mp = Some (int (profundidad (last fr)))")
      case True
      with assms ne nm show ?thesis by (simp add: Let_def)
    next
      case False
      with assms ne nm show ?thesis by (simp add: Let_def split_beta)
    qed
  qed
qed

lemma profundo_paso_Inl:
  assumes "profundo_paso P mp (fr, vis, num) = Inl r"
  shows "(fr = [] \<and> r = (None, num)) \<or>
         (fr \<noteq> [] \<and> meta P (estado (last fr)) \<and> r = (Some (sella (last fr) (num + 1)), num + 1))"
proof (cases "fr = []")
  case True
  with assms show ?thesis by simp
next
  case ne: False
  show ?thesis
  proof (cases "meta P (estado (last fr))")
    case True
    with assms ne show ?thesis by (simp add: Let_def)
  next
    case nm: False
    show ?thesis
    proof (cases "mp = Some (int (profundidad (last fr)))")
      case True
      with assms ne nm show ?thesis by (simp add: Let_def)
    next
      case False
      with assms ne nm show ?thesis by (simp add: Let_def split_beta)
    qed
  qed
qed

lemma profundo_paso_progreso:
  assumes "finite S" "cerrado (modelo P) S"
    and "estado ` set fr \<subseteq> S" "dom vis \<subseteq> S"
    and p: "profundo_paso P mp (fr, vis, num) = Inr (fr', vis', num')"
  shows "estado ` set fr' \<subseteq> S \<and> dom vis' \<subseteq> S \<and>
         ((medida (\<lambda>d. d) S vis', length fr'), (medida (\<lambda>d. d) S vis, length fr))
           \<in> (less_than <*lex*> less_than) <*lex*> less_than"
proof -
  note c = profundo_paso_Inr[OF p]
  from c have ne: "fr \<noteq> []" by (rule conjunct1)
  have b: "estado ` set (butlast fr) \<subseteq> S"
  proof
    fix x assume "x \<in> estado ` set (butlast fr)"
    then obtain n where "n \<in> set (butlast fr)" "x = estado n" by blast
    then have "n \<in> set fr" by (simp add: in_set_butlastD)
    with assms(3) \<open>x = estado n\<close> show "x \<in> S" by blast
  qed
  have "last fr \<in> set fr" using ne by (rule last_in_set)
  with assms(3) have l: "estado (last fr) \<in> S" by blast
  have lb: "length (butlast fr) < length fr" using ne by simp
  show ?thesis
  proof (cases "mp = Some (int (profundidad (last fr)))")
    case True
    with c have "(fr', vis', num') = (butlast fr, vis, num + 1)" by simp
    then have "fr' = butlast fr" "vis' = vis" by simp_all
    with b assms(4) lb show ?thesis by simp
  next
    case False
    with c have "(fr', vis', num') =
      (fst (profundo_hijos (expande (last fr) (modelo P)) (butlast fr) vis),
       snd (profundo_hijos (expande (last fr) (modelo P)) (butlast fr) vis), num + 1)"
      by simp
    then have h: "profundo_hijos (expande (last fr) (modelo P)) (butlast fr) vis = (fr', vis')"
      by simp
    have e: "estado ` set (expande (last fr) (modelo P)) \<subseteq> S"
      using assms(2) l by (rule expande_estados)
    note r = profundo_hijos_progreso[OF assms(1) e b assms(4) h]
    from r have r1: "estado ` set fr' \<subseteq> S" and r2: "dom vis' \<subseteq> S" by simp_all
    from r have r3: "(vis' = vis \<and> fr' = butlast fr) \<or>
          (medida (\<lambda>d. d) S vis', medida (\<lambda>d. d) S vis) \<in> less_than <*lex*> less_than"
      by (elim conjE)
    have "((medida (\<lambda>d. d) S vis', length fr'), (medida (\<lambda>d. d) S vis, length fr))
           \<in> (less_than <*lex*> less_than) <*lex*> less_than"
    proof (cases "vis' = vis \<and> fr' = butlast fr")
      case True
      with lb show ?thesis by simp
    next
      case False
      with r3 have "(medida (\<lambda>d. d) S vis', medida (\<lambda>d. d) S vis) \<in> less_than <*lex*> less_than"
        by blast
      then show ?thesis by (rule in_lex_prod[THEN iffD2, OF disjI1])
    qed
    with r1 r2 show ?thesis by (intro conjI)
  qed
qed

lemma profundo_termina:
  assumes "finite S" "cerrado (modelo P) S" "\<forall>s \<in> S. \<not> meta P s"
    and "estado ` set frontera \<subseteq> S" "dom visitados \<subseteq> S"
  shows "\<exists>k. ciclo_while (profundo_paso P mp) (frontera, visitados, num) = Some (None, k)"
proof -
  define I :: "('a, 'b) nodo list \<times> ('a \<rightharpoonup> nat) \<times> nat \<Rightarrow> bool"
    where "I = (\<lambda>(fr, vis, num). estado ` set fr \<subseteq> S \<and> dom vis \<subseteq> S)"
  define R :: "(('a, 'b) nodo list \<times> ('a \<rightharpoonup> nat) \<times> nat) rel"
    where "R = inv_image ((less_than <*lex*> less_than) <*lex*> less_than)
              (\<lambda>(fr, vis, num). (medida (\<lambda>d. d) S vis, length fr))"
  have paso: "I s' \<and> (s', s) \<in> R" if i: "I s" and p: "profundo_paso P mp s = Inr s'" for s s'
  proof -
    obtain fr vis num where s: "s = (fr, vis, num)" by (cases s)
    obtain fr' vis' num' where s': "s' = (fr', vis', num')" by (cases s')
    from i have "estado ` set fr \<subseteq> S" "dom vis \<subseteq> S" by (simp_all add: I_def s)
    from profundo_paso_progreso[OF assms(1,2) this p[unfolded s s']]
    show ?thesis by (simp add: I_def R_def s s')
  qed
  have i0: "I (frontera, visitados, num)" using assms(4,5) by (simp add: I_def)
  have "\<exists>r. ciclo_while (profundo_paso P mp) (frontera, visitados, num) = Some r"
  proof (rule ciclo_while_termina[where R = R and I = I])
    show "wf R" unfolding R_def by (intro wf_inv_image wf_lex_prod wf_less_than)
    show "I (frontera, visitados, num)" by (rule i0)
    fix s s' assume "I s" "profundo_paso P mp s = Inr s'"
    then show "I s' \<and> (s', s) \<in> R" by (rule paso)
  qed
  then obtain r where r: "ciclo_while (profundo_paso P mp) (frontera, visitados, num) = Some r" ..
  have "fst r = None"
  proof (rule ciclo_while_invariante[OF r, where I = I])
    show "I (frontera, visitados, num)" by (rule i0)
  next
    fix s s' assume "I s" "profundo_paso P mp s = Inr s'"
    then have "I s' \<and> (s', s) \<in> R" by (rule paso)
    then show "I s'" ..
  next
    fix s r assume i: "I s" and p: "profundo_paso P mp s = Inl r"
    obtain fr vis num where s: "s = (fr, vis, num)" by (cases s)
    note c = profundo_paso_Inl[OF p[unfolded s]]
    show "fst r = None"
    proof (cases "fr = []")
      case True
      with c show ?thesis by simp
    next
      case False
      then have "last fr \<in> set fr" by (rule last_in_set)
      with i have "estado (last fr) \<in> S" by (auto simp: I_def s)
      with assms(3) have "\<not> meta P (estado (last fr))" by blast
      with c False show ?thesis by simp
    qed
  qed
  then show ?thesis using r by (cases r) simp
qed

text \<open>A* and uniform-cost search.\<close>

lemma length_heappop:
  assumes "heappop heap = Some (e, resto)"
  shows "length resto < length heap"
proof -
  from heappop_mset[OF assms] have "size (mset heap) = Suc (size (mset resto))" by simp
  then show ?thesis by simp
qed

lemma a_estrella_hijos_progreso:
  assumes "finite S" "\<forall>n \<in> set hijos. estado n \<in> S \<and> 0 \<le> costo n"
    and "\<forall>n \<in> snd ` set frontera. estado n \<in> S \<and> 0 \<le> costo n" "dom visitados \<subseteq> S"
    and "a_estrella_hijos h hijos frontera visitados = (frontera', visitados')"
  shows "(\<forall>n \<in> snd ` set frontera'. estado n \<in> S \<and> 0 \<le> costo n) \<and> dom visitados' \<subseteq> S \<and>
         ((visitados' = visitados \<and> frontera' = frontera) \<or>
          (medida nat S visitados', medida nat S visitados) \<in> less_than <*lex*> less_than)"
  using assms(2-)
proof (induction hijos arbitrary: frontera visitados)
  case Nil
  then show ?case by simp
next
  case (Cons a hijos)
  have hs: "\<forall>n \<in> set hijos. estado n \<in> S \<and> 0 \<le> costo n" using Cons.prems(1) by simp
  have a: "estado a \<in> S" "0 \<le> costo a" using Cons.prems(1) by simp_all
  show ?case
  proof (cases "case visitados (estado a) of None \<Rightarrow> True | Some c \<Rightarrow> c > costo a")
    case False
    with Cons.prems(4) have "a_estrella_hijos h hijos frontera visitados = (frontera', visitados')"
      by simp
    with hs Cons.prems(2,3) show ?thesis by (rule Cons.IH)
  next
    case True
    let ?v = "visitados(estado a \<mapsto> costo a)"
    let ?f = "heappush frontera (costo a + h a, a)"
    from True Cons.prems(4)
    have e: "a_estrella_hijos h hijos ?f ?v = (frontera', visitados')"
      by simp
    have "case visitados (estado a) of None \<Rightarrow> True | Some c0 \<Rightarrow> nat (costo a) < nat c0"
      using True a(2) by (simp split: option.splits)
    with assms(1) Cons.prems(3) a(1)
    have m: "(medida nat S ?v, medida nat S visitados) \<in> less_than <*lex*> less_than"
      by (rule medida_actualiza)
    have f: "\<forall>n \<in> snd ` set ?f. estado n \<in> S \<and> 0 \<le> costo n"
      using Cons.prems(2) a by simp
    have d: "dom ?v \<subseteq> S" using Cons.prems(3) a by simp
    have r: "(\<forall>n \<in> snd ` set frontera'. estado n \<in> S \<and> 0 \<le> costo n) \<and> dom visitados' \<subseteq> S \<and>
         ((visitados' = ?v \<and> frontera' = ?f) \<or>
          (medida nat S visitados', medida nat S ?v) \<in> less_than <*lex*> less_than)"
      using hs f d e by (rule Cons.IH)
    have "(medida nat S visitados', medida nat S visitados) \<in> less_than <*lex*> less_than"
    proof (cases "visitados' = ?v")
      case True
      with m show ?thesis by (simp only:)
    next
      case False
      with r have "(medida nat S visitados', medida nat S ?v) \<in> less_than <*lex*> less_than"
        by (elim conjE disjE) simp_all
      from transD[OF trans_medida this m] show ?thesis .
    qed
    with r show ?thesis by (intro conjI disjI2) (elim conjE, assumption)+
  qed
qed

lemma expande_no_negativos:
  assumes "cerrado M S" "\<forall>s \<in> S. \<forall>a \<in> set (acciones_legales M s). 0 \<le> costo_local M s a"
    and "estado n \<in> S" "0 \<le> costo n"
  shows "\<forall>n' \<in> set (expande n M). estado n' \<in> S \<and> 0 \<le> costo n'"
  using assms by (auto simp: expande_hijo cerrado_def)

lemma a_estrella_paso_progreso:
  assumes "finite S" "cerrado (modelo P) S"
    and "\<forall>s \<in> S. \<forall>a \<in> set (acciones_legales (modelo P) s). 0 \<le> costo_local (modelo P) s a"
    and "\<forall>n \<in> snd ` set fr. estado n \<in> S \<and> 0 \<le> costo n" "dom vis \<subseteq> S"
    and p: "a_estrella_paso P h (fr, vis, num) = Inr (fr', vis', num')"
  shows "(\<forall>n \<in> snd ` set fr'. estado n \<in> S \<and> 0 \<le> costo n) \<and> dom vis' \<subseteq> S \<and>
         ((medida nat S vis', length fr'), (medida nat S vis, length fr))
           \<in> (less_than <*lex*> less_than) <*lex*> less_than"
proof -
  from a_estrella_paso_Inr[OF p] obtain pr nodo resto where
    pop: "heappop fr = Some ((pr, nodo), resto)" and
    s': "(fr', vis', num') = (fst (a_estrella_hijos h (expande nodo (modelo P)) resto vis),
                 snd (a_estrella_hijos h (expande nodo (modelo P)) resto vis), num + 1)"
    by blast
  from s' have hh: "a_estrella_hijos h (expande nodo (modelo P)) resto vis = (fr', vis')" by simp
  have sf: "set fr = insert (pr, nodo) (set resto)" using pop by (rule set_heappop)
  have n: "estado nodo \<in> S" "0 \<le> costo nodo" using assms(4) sf by auto
  have b: "\<forall>n \<in> snd ` set resto. estado n \<in> S \<and> 0 \<le> costo n" using assms(4) sf by auto
  have lb: "length resto < length fr" using pop by (rule length_heappop)
  have e: "\<forall>n' \<in> set (expande nodo (modelo P)). estado n' \<in> S \<and> 0 \<le> costo n'"
    using assms(2,3) n by (rule expande_no_negativos)
  note r = a_estrella_hijos_progreso[OF assms(1) e b assms(5) hh]
  from r have r1: "\<forall>n \<in> snd ` set fr'. estado n \<in> S \<and> 0 \<le> costo n" and r2: "dom vis' \<subseteq> S"
    by simp_all
  from r have r3: "(vis' = vis \<and> fr' = resto) \<or>
          (medida nat S vis', medida nat S vis) \<in> less_than <*lex*> less_than"
    by (elim conjE)
  have "((medida nat S vis', length fr'), (medida nat S vis, length fr))
           \<in> (less_than <*lex*> less_than) <*lex*> less_than"
  proof (cases "vis' = vis \<and> fr' = resto")
    case True
    with lb show ?thesis by simp
  next
    case False
    with r3 have "(medida nat S vis', medida nat S vis) \<in> less_than <*lex*> less_than"
      by blast
    then show ?thesis by (rule in_lex_prod[THEN iffD2, OF disjI1])
  qed
  with r1 r2 show ?thesis by (intro conjI)
qed

lemma a_estrella_termina:
  assumes "finite S" "cerrado (modelo P) S" "\<forall>s \<in> S. \<not> meta P s"
    and "\<forall>s \<in> S. \<forall>a \<in> set (acciones_legales (modelo P) s). 0 \<le> costo_local (modelo P) s a"
    and "\<forall>n \<in> snd ` set frontera. estado n \<in> S \<and> 0 \<le> costo n" "dom visitados \<subseteq> S"
  shows "\<exists>k. ciclo_while (a_estrella_paso P h) (frontera, visitados, num) = Some (None, k)"
proof -
  define I :: "('a, 'b) entrada list \<times> ('a \<rightharpoonup> int) \<times> nat \<Rightarrow> bool"
    where "I = (\<lambda>(fr, vis, num). (\<forall>n \<in> snd ` set fr. estado n \<in> S \<and> 0 \<le> costo n) \<and> dom vis \<subseteq> S)"
  define R :: "(('a, 'b) entrada list \<times> ('a \<rightharpoonup> int) \<times> nat) rel"
    where "R = inv_image ((less_than <*lex*> less_than) <*lex*> less_than)
              (\<lambda>(fr, vis, num). (medida nat S vis, length fr))"
  have paso: "I s' \<and> (s', s) \<in> R" if i: "I s" and p: "a_estrella_paso P h s = Inr s'" for s s'
  proof -
    obtain fr vis num where s: "s = (fr, vis, num)" by (cases s)
    obtain fr' vis' num' where s': "s' = (fr', vis', num')" by (cases s')
    from i have "\<forall>n \<in> snd ` set fr. estado n \<in> S \<and> 0 \<le> costo n" "dom vis \<subseteq> S"
      by (simp_all add: I_def s)
    from a_estrella_paso_progreso[OF assms(1,2,4) this p[unfolded s s']]
    show ?thesis by (simp add: I_def R_def s s')
  qed
  have i0: "I (frontera, visitados, num)" using assms(5,6) by (simp add: I_def)
  have "\<exists>r. ciclo_while (a_estrella_paso P h) (frontera, visitados, num) = Some r"
  proof (rule ciclo_while_termina[where R = R and I = I])
    show "wf R" unfolding R_def by (intro wf_inv_image wf_lex_prod wf_less_than)
    show "I (frontera, visitados, num)" by (rule i0)
    fix s s' assume "I s" "a_estrella_paso P h s = Inr s'"
    then show "I s' \<and> (s', s) \<in> R" by (rule paso)
  qed
  then obtain r where r: "ciclo_while (a_estrella_paso P h) (frontera, visitados, num) = Some r" ..
  have "fst r = None"
  proof (rule ciclo_while_invariante[OF r, where I = I])
    show "I (frontera, visitados, num)" by (rule i0)
  next
    fix s s' assume "I s" "a_estrella_paso P h s = Inr s'"
    then have "I s' \<and> (s', s) \<in> R" by (rule paso)
    then show "I s'" ..
  next
    fix s r assume i: "I s" and p: "a_estrella_paso P h s = Inl r"
    obtain fr vis num where s: "s = (fr, vis, num)" by (cases s)
    note c = a_estrella_paso_Inl[OF p[unfolded s]]
    show "fst r = None"
    proof (cases "fr = []")
      case True
      with c show ?thesis by auto
    next
      case False
      with c obtain pr nodo resto where pop: "heappop fr = Some ((pr, nodo), resto)"
        and m: "meta P (estado nodo)" by blast
      from set_heappop[OF pop] i have "estado nodo \<in> S" by (auto simp: I_def s)
      with assms(3) m show ?thesis by blast
    qed
  qed
  then show ?thesis using r by (cases r) simp
qed

lemma busqueda_ancho_termina:
  assumes "finite S" "cerrado (modelo P) S" "\<forall>s \<in> S. \<not> meta P s" "x0 P \<in> S"
  shows "\<exists>k. busqueda_ancho P = Some (None, k)"
proof -
  from assms(3,4) have "\<not> meta P (x0 P)" by blast
  then show ?thesis
    using ancho_termina[OF assms(1-3), of "[nodo_init (x0 P) None None 0]" "{x0 P}" "num_nodos P + 1"]
      assms(4)
    by (simp add: busqueda_ancho_def)
qed

lemma busqueda_profundo_termina:
  assumes "finite S" "cerrado (modelo P) S" "\<forall>s \<in> S. \<not> meta P s" "x0 P \<in> S"
  shows "\<exists>k. busqueda_profundo P mp = Some (None, k)"
  using profundo_termina[OF assms(1-3), of "[nodo_init (x0 P) None None 0]" "[x0 P \<mapsto> 0]" mp "num_nodos P"]
    assms(4)
  by (simp add: busqueda_profundo_def)

lemma iterativa_ciclo_termina:
  assumes "finite S" "cerrado (modelo P) S" "\<forall>s \<in> S. \<not> meta P s" "x0 P \<in> S"
  shows "\<exists>k. iterativa_ciclo P ds = Some (None, k)"
  using assms(2-)
proof (induction ds arbitrary: P)
  case Nil
  show ?case by simp
next
  case (Cons d ds)
  from busqueda_profundo_termina[OF assms(1) Cons.prems, of "Some (int d)"]
  obtain k where k: "busqueda_profundo P (Some (int d)) = Some (None, k)" ..
  have "\<exists>k'. iterativa_ciclo (P\<lparr>num_nodos := k\<rparr>) ds = Some (None, k')"
    by (rule Cons.IH) (use Cons.prems in simp_all)
  with k show ?case by simp
qed

lemma busqueda_A_estrella_termina:
  assumes "finite S" "cerrado (modelo P) S" "\<forall>s \<in> S. \<not> meta P s" "x0 P \<in> S"
    and "\<forall>s \<in> S. \<forall>a \<in> set (acciones_legales (modelo P) s). 0 \<le> costo_local (modelo P) s a"
  shows "\<exists>k. busqueda_A_estrella P h = Some (None, k)"
  using a_estrella_termina[OF assms(1-3,5),
      of "heappush [] (0, nodo_init (x0 P) None None 0)" "[x0 P \<mapsto> 0]" h "num_nodos P"]
    assms(4)
  by (simp add: busqueda_A_estrella_def)

text \<open>
  C6.  On a finite state space in which no goal state is reachable from the initial
  state, every strategy terminates and returns \<^verbatim>\<open>None\<close>: breadth-first, depth-first
  (for any depth bound, also with its re-enqueueing at smaller depths) and iterative
  deepening always, uniform-cost and A* when the step costs are non-negative.
\<close>

theorem C6_sin_solucion_termina:
  assumes "finite (alcanzables P)" and "\<forall>s \<in> alcanzables P. \<not> meta P s"
  shows "(\<exists>k. busqueda_ancho P = Some (None, k)) \<and>
         (\<exists>k. busqueda_profundo P max_profundidad = Some (None, k)) \<and>
         (\<exists>k. busqueda_profundidad_iterativa P techo = Some (None, k)) \<and>
         ((\<forall>s \<in> alcanzables P. \<forall>a \<in> set (acciones_legales (modelo P) s).
              0 \<le> costo_local (modelo P) s a) \<longrightarrow>
          (\<exists>k. busqueda_costo_uniforme P = Some (None, k)) \<and>
          (\<exists>k. busqueda_A_estrella P heuristica = Some (None, k)))"
proof -
  note c = cerrado_alcanzables[of P] and i = alcanzables.inicial[of P]
  show ?thesis
  proof (intro conjI impI)
    show "\<exists>k. busqueda_ancho P = Some (None, k)"
      using assms(1) c assms(2) i by (rule busqueda_ancho_termina)
    show "\<exists>k. busqueda_profundo P max_profundidad = Some (None, k)"
      using assms(1) c assms(2) i by (rule busqueda_profundo_termina)
    show "\<exists>k. busqueda_profundidad_iterativa P techo = Some (None, k)"
      unfolding busqueda_profundidad_iterativa_def
      using assms(1) c assms(2) i by (rule iterativa_ciclo_termina)
  next
    assume n: "\<forall>s \<in> alcanzables P. \<forall>a \<in> set (acciones_legales (modelo P) s).
              0 \<le> costo_local (modelo P) s a"
    show "\<exists>k. busqueda_A_estrella P heuristica = Some (None, k)"
      using assms(1) c assms(2) i n by (rule busqueda_A_estrella_termina)
    show "\<exists>k. busqueda_costo_uniforme P = Some (None, k)"
      unfolding costo_uniforme_a_estrella
      using assms(1) c assms(2) i n by (rule busqueda_A_estrella_termina)
  qed
qed

lemma alcanzables_rombo_sin_meta: "alcanzables rombo_sin_meta \<subseteq> {0, 1, 2, 3}"
proof
  fix s assume "s \<in> alcanzables rombo_sin_meta"
  then show "s \<in> {0, 1, 2, 3}"
    by induction (auto simp: rombo_sin_meta_def rombo_modelo_def split: if_splits)
qed

theorem C6_sin_solucion_termina_witness:
  "(\<exists>k. busqueda_ancho rombo_sin_meta = Some (None, k)) \<and>
   (\<exists>k. busqueda_profundo rombo_sin_meta None = Some (None, k)) \<and>
   (\<exists>k. busqueda_profundidad_iterativa rombo_sin_meta 3 = Some (None, k)) \<and>
   (\<exists>k. busqueda_costo_uniforme rombo_sin_meta = Some (None, k)) \<and>
   (\<exists>k. busqueda_A_estrella rombo_sin_meta (\<lambda>n. 0) = Some (None, k)) \<and>
   busqueda_profundo rombo_sin_meta None = Some (None, 4) \<and>
   busqueda_costo_uniforme rombo_sin_meta = Some (None, 5)"
proof -
  have f: "finite (alcanzables rombo_sin_meta)"
    using alcanzables_rombo_sin_meta by (rule finite_subset) simp
  have m: "\<forall>s \<in> alcanzables rombo_sin_meta. \<not> meta rombo_sin_meta s"
    by (simp add: rombo_sin_meta_def)
  have n: "\<forall>s \<in> alcanzables rombo_sin_meta.
      \<forall>a \<in> set (acciones_legales (modelo rombo_sin_meta) s).
         0 \<le> costo_local (modelo rombo_sin_meta) s a"
    by (simp add: rombo_sin_meta_def rombo_modelo_def)
  have e1: "busqueda_profundo rombo_sin_meta None = Some (None, 4)" by code_simp
  have e2: "busqueda_costo_uniforme rombo_sin_meta = Some (None, 5)" by code_simp
  from C6_sin_solucion_termina[OF f m, of None 3 "\<lambda>n. 0"] n e1 e2
  show ?thesis by blast
qed

section \<open>Breadth-first search returns a shallowest goal\<close>

lemma inv_anchoD:
  assumes "inv_ancho P F vis"
  shows "set F \<subseteq> nodos_motor (modelo P) (x0 P)"
    and "estado ` set F \<subseteq> vis"
    and "x0 P \<in> vis"
    and "\<forall>s \<in> vis. \<not> meta P s"
    and "\<forall>s \<in> vis. (\<exists>m \<in> set F. estado m = s) \<or>
                  (\<forall>a \<in> set (acciones_legales (modelo P) s). sucesor (modelo P) s a \<in> vis)"
    and "sorted (map profundidad F)"
    and "F \<noteq> [] \<longrightarrow> profundidad (last F) \<le> profundidad (hd F) + 1"
    and "\<forall>m \<in> set F. \<forall>as. camino_legal (modelo P) (x0 P) as \<and>
           destino (modelo P) (x0 P) as = estado m \<longrightarrow> profundidad m \<le> length as"
  using assms unfolding inv_ancho_def by - (elim conjE, assumption)+

lemma sorted_map_hd:
  "sorted (map f xs) \<Longrightarrow> x \<in> set xs \<Longrightarrow> f (hd xs) \<le> f x"
  by (cases xs) auto

lemma sorted_map_last:
  "sorted (map f xs) \<Longrightarrow> x \<in> set xs \<Longrightarrow> f x \<le> f (last xs)"
proof (induction xs)
  case Nil
  then show ?case by simp
next
  case (Cons y ys)
  show ?case
  proof (cases "ys = []")
    case True
    with Cons.prems show ?thesis by simp
  next
    case False
    then have l: "last ys \<in> set ys" by simp
    from Cons.prems(1) have s: "sorted (map f ys)" and a: "\<forall>z \<in> set ys. f y \<le> f z" by auto
    from a l have 1: "f y \<le> f (last ys)" by blast
    have 2: "x \<in> set ys \<Longrightarrow> f x \<le> f (last ys)" using Cons.IH[OF s] by blast
    from Cons.prems(2) have "x = y \<or> x \<in> set ys" by simp
    with 1 2 have "f x \<le> f (last ys)" by blast
    with False show ?thesis by simp
  qed
qed

lemma inv_anchoI:
  assumes "set F \<subseteq> nodos_motor (modelo P) (x0 P)"
    and "estado ` set F \<subseteq> vis"
    and "x0 P \<in> vis"
    and "\<forall>s \<in> vis. \<not> meta P s"
    and "\<forall>s \<in> vis. (\<exists>m \<in> set F. estado m = s) \<or>
                  (\<forall>a \<in> set (acciones_legales (modelo P) s). sucesor (modelo P) s a \<in> vis)"
    and "sorted (map profundidad F)"
    and "F \<noteq> [] \<longrightarrow> profundidad (last F) \<le> profundidad (hd F) + 1"
    and "\<forall>m \<in> set F. \<forall>as. camino_legal (modelo P) (x0 P) as \<and>
           destino (modelo P) (x0 P) as = estado m \<longrightarrow> profundidad m \<le> length as"
  shows "inv_ancho P F vis"
  unfolding inv_ancho_def using assms by (intro conjI)

lemma camino_legal_snoc:
  "camino_legal M s (bs @ [a]) \<longleftrightarrow>
     camino_legal M s bs \<and> a \<in> set (acciones_legales M (destino M s bs))"
  by (induction bs arbitrary: s) auto

lemma destino_snoc: "destino M s (bs @ [a]) = sucesor M (destino M s bs) a"
  by (induction bs arbitrary: s) auto

lemma inv_ancho_caminos:
  assumes i: "inv_ancho P F vis" and "camino_legal (modelo P) (x0 P) as"
    and "F = [] \<or> length as \<le> profundidad (hd F)"
  shows "destino (modelo P) (x0 P) as \<in> vis"
  using assms(2,3)
proof (induction as rule: rev_induct)
  case Nil
  from inv_anchoD(3)[OF i] show ?case by simp
next
  case (snoc a bs)
  let ?s = "destino (modelo P) (x0 P) bs"
  from snoc.prems(1) have lb: "camino_legal (modelo P) (x0 P) bs"
    and a: "a \<in> set (acciones_legales (modelo P) ?s)"
    by (simp_all add: camino_legal_snoc)
  from snoc.prems(2) have cota: "F = [] \<or> length bs < profundidad (hd F)" by auto
  then have "F = [] \<or> length bs \<le> profundidad (hd F)" by auto
  with snoc.IH lb have s: "?s \<in> vis" by blast
  have no: "\<not> (\<exists>m \<in> set F. estado m = ?s)"
  proof
    assume "\<exists>m \<in> set F. estado m = ?s"
    then obtain m where m: "m \<in> set F" "estado m = ?s" by blast
    then have "F \<noteq> []" by auto
    with cota have 1: "length bs < profundidad (hd F)" by simp
    have 2: "profundidad (hd F) \<le> profundidad m"
      using sorted_map_hd[OF inv_anchoD(6)[OF i] m(1)] .
    have 3: "profundidad m \<le> length bs"
      using inv_anchoD(8)[OF i, rule_format, of m bs] m(1) m(2)[symmetric] lb by simp
    from 1 2 3 show False by simp
  qed
  from inv_anchoD(5)[OF i] s
  have "(\<exists>m \<in> set F. estado m = ?s) \<or>
        (\<forall>a \<in> set (acciones_legales (modelo P) ?s). sucesor (modelo P) ?s a \<in> vis)"
    by blast
  with no a have "sucesor (modelo P) ?s a \<in> vis" by blast
  then show ?case by (simp add: destino_snoc)
qed

lemma inv_ancho_inicial:
  assumes "\<not> meta P (x0 P)"
  shows "inv_ancho P [Nodo (x0 P) None None 0 0 0] {x0 P}"
proof (rule inv_anchoI)
  have "nodo_init (x0 P) None None (0::int) \<in> nodos_motor (modelo P) (x0 P)"
    by (rule nodos_motor.raiz)
  then show "set [Nodo (x0 P) None None 0 0 0] \<subseteq> nodos_motor (modelo P) (x0 P)" by simp
qed (use assms in simp_all)

lemma expande_profundidad:
  "h \<in> set (expande n M) \<Longrightarrow> profundidad h = profundidad n + 1"
  by (auto simp: expande_hijo)

lemma inv_ancho_meta:
  assumes i: "inv_ancho P (n # fr) vis" and h: "h \<in> set (expande n (modelo P))"
    and as: "camino_legal (modelo P) (x0 P) as" "meta P (destino (modelo P) (x0 P) as)"
  shows "profundidad h \<le> length as"
proof (rule ccontr)
  assume "\<not> profundidad h \<le> length as"
  with expande_profundidad[OF h] have "length as \<le> profundidad (hd (n # fr))" by simp
  then have "n # fr = [] \<or> length as \<le> profundidad (hd (n # fr))" by blast
  from inv_ancho_caminos[OF i as(1) this] have "destino (modelo P) (x0 P) as \<in> vis" .
  with inv_anchoD(4)[OF i] as(2) show False by blast
qed

lemma inv_ancho_agrega:
  assumes i: "inv_ancho P (n # fr) vis" and h: "h \<in> set (expande n (modelo P))"
    and nv: "estado h \<notin> vis" and nm: "\<not> meta P (estado h)"
  shows "inv_ancho P (n # fr @ [h]) (insert (estado h) vis)"
proof (rule inv_anchoI)
  have ph: "profundidad h = profundidad n + 1" using h by (rule expande_profundidad)
  from inv_anchoD(1)[OF i] have n: "n \<in> nodos_motor (modelo P) (x0 P)" by simp
  from n h have hn: "h \<in> nodos_motor (modelo P) (x0 P)" by (rule nodos_motor.hijo)
  from inv_anchoD(6)[OF i] have so: "sorted (map profundidad (n # fr))" .
  from inv_anchoD(7)[OF i] have la: "profundidad (last (n # fr)) \<le> profundidad n + 1" by simp
  have le: "profundidad x \<le> profundidad h" if "x \<in> set (n # fr)" for x
    using sorted_map_last[OF so that] la ph by simp
  show "set (n # fr @ [h]) \<subseteq> nodos_motor (modelo P) (x0 P)"
    using inv_anchoD(1)[OF i] hn by simp
  show "estado ` set (n # fr @ [h]) \<subseteq> insert (estado h) vis"
    using inv_anchoD(2)[OF i] by auto
  show "x0 P \<in> insert (estado h) vis" using inv_anchoD(3)[OF i] by simp
  show "\<forall>s \<in> insert (estado h) vis. \<not> meta P s" using inv_anchoD(4)[OF i] nm by simp
  show "\<forall>s \<in> insert (estado h) vis. (\<exists>m \<in> set (n # fr @ [h]). estado m = s) \<or>
       (\<forall>a \<in> set (acciones_legales (modelo P) s). sucesor (modelo P) s a \<in> insert (estado h) vis)"
  proof
    fix s assume s: "s \<in> insert (estado h) vis"
    show "(\<exists>m \<in> set (n # fr @ [h]). estado m = s) \<or>
       (\<forall>a \<in> set (acciones_legales (modelo P) s). sucesor (modelo P) s a \<in> insert (estado h) vis)"
    proof (cases "s = estado h")
      case True
      then have "\<exists>m \<in> set (n # fr @ [h]). estado m = s" by simp
      then show ?thesis ..
    next
      case False
      with s have "s \<in> vis" by simp
      with inv_anchoD(5)[OF i] have "(\<exists>m \<in> set (n # fr). estado m = s) \<or>
          (\<forall>a \<in> set (acciones_legales (modelo P) s). sucesor (modelo P) s a \<in> vis)"
        by blast
      then show ?thesis
      proof
        assume "\<exists>m \<in> set (n # fr). estado m = s"
        then obtain m where "m \<in> set (n # fr)" "estado m = s" by blast
        then have "m \<in> set (n # fr @ [h])" "estado m = s" by auto
        then show ?thesis by blast
      next
        assume "\<forall>a \<in> set (acciones_legales (modelo P) s). sucesor (modelo P) s a \<in> vis"
        then show ?thesis by blast
      qed
    qed
  qed
  show "sorted (map profundidad (n # fr @ [h]))"
  proof -
    have "sorted (map profundidad ((n # fr) @ [h]))"
      unfolding map_append sorted_append using so le by auto
    then show ?thesis by simp
  qed
  show "n # fr @ [h] \<noteq> [] \<longrightarrow>
      profundidad (last (n # fr @ [h])) \<le> profundidad (hd (n # fr @ [h])) + 1"
    using ph by simp
  show "\<forall>m \<in> set (n # fr @ [h]). \<forall>as. camino_legal (modelo P) (x0 P) as \<and>
           destino (modelo P) (x0 P) as = estado m \<longrightarrow> profundidad m \<le> length as"
  proof (intro ballI allI impI)
    fix m as assume m: "m \<in> set (n # fr @ [h])"
      and as: "camino_legal (modelo P) (x0 P) as \<and> destino (modelo P) (x0 P) as = estado m"
    show "profundidad m \<le> length as"
    proof (cases "m \<in> set (n # fr)")
      case True
      from inv_anchoD(8)[OF i, rule_format, OF True as] show ?thesis .
    next
      case False
      with m have mh: "m = h" by auto
      show ?thesis
      proof (rule ccontr)
        assume "\<not> profundidad m \<le> length as"
        with ph mh have "length as \<le> profundidad (hd (n # fr))" by simp
        then have "n # fr = [] \<or> length as \<le> profundidad (hd (n # fr))" by blast
        from inv_ancho_caminos[OF i conjunct1[OF as] this]
        have "destino (modelo P) (x0 P) as \<in> vis" .
        with as mh nv show False by simp
      qed
    qed
  qed
qed

lemma expande_sucesores:
  "a \<in> set (acciones_legales M (estado n)) \<Longrightarrow>
   sucesor M (estado n) a \<in> estado ` set (expande n M)"
  by (force simp: expande_hijo)

lemma inv_ancho_cierra:
  assumes i: "inv_ancho P (n # fr) vis" and e: "estado ` set (expande n (modelo P)) \<subseteq> vis"
  shows "inv_ancho P fr vis"
proof (rule inv_anchoI)
  from inv_anchoD(6)[OF i] have so: "sorted (map profundidad (n # fr))" .
  from inv_anchoD(7)[OF i] have la: "profundidad (last (n # fr)) \<le> profundidad n + 1" by simp
  show "set fr \<subseteq> nodos_motor (modelo P) (x0 P)" using inv_anchoD(1)[OF i] by simp
  show "estado ` set fr \<subseteq> vis" using inv_anchoD(2)[OF i] by simp
  show "x0 P \<in> vis" using inv_anchoD(3)[OF i] .
  show "\<forall>s \<in> vis. \<not> meta P s" using inv_anchoD(4)[OF i] .
  have cn: "\<forall>a \<in> set (acciones_legales (modelo P) (estado n)).
      sucesor (modelo P) (estado n) a \<in> vis"
    using expande_sucesores[of _ "modelo P" n] e by blast
  show "\<forall>s \<in> vis. (\<exists>m \<in> set fr. estado m = s) \<or>
       (\<forall>a \<in> set (acciones_legales (modelo P) s). sucesor (modelo P) s a \<in> vis)"
  proof
    fix s assume "s \<in> vis"
    with inv_anchoD(5)[OF i] have "(\<exists>m \<in> set (n # fr). estado m = s) \<or>
          (\<forall>a \<in> set (acciones_legales (modelo P) s). sucesor (modelo P) s a \<in> vis)"
      by blast
    then show "(\<exists>m \<in> set fr. estado m = s) \<or>
       (\<forall>a \<in> set (acciones_legales (modelo P) s). sucesor (modelo P) s a \<in> vis)"
    proof
      assume "\<exists>m \<in> set (n # fr). estado m = s"
      then obtain m where m: "m \<in> set (n # fr)" "estado m = s" by blast
      show ?thesis
      proof (cases "m = n")
        case True
        with m(2) cn show ?thesis by blast
      next
        case False
        with m have "m \<in> set fr" by simp
        with m(2) show ?thesis by blast
      qed
    next
      assume "\<forall>a \<in> set (acciones_legales (modelo P) s). sucesor (modelo P) s a \<in> vis"
      then show ?thesis ..
    qed
  qed
  show "sorted (map profundidad fr)" using so by simp
  show "fr \<noteq> [] \<longrightarrow> profundidad (last fr) \<le> profundidad (hd fr) + 1"
  proof
    assume ne: "fr \<noteq> []"
    then have "hd fr \<in> set fr" by simp
    with so have "profundidad n \<le> profundidad (hd fr)" by simp
    with la ne show "profundidad (last fr) \<le> profundidad (hd fr) + 1" by simp
  qed
  show "\<forall>m \<in> set fr. \<forall>as. camino_legal (modelo P) (x0 P) as \<and>
           destino (modelo P) (x0 P) as = estado m \<longrightarrow> profundidad m \<le> length as"
    using inv_anchoD(8)[OF i] by simp
qed

lemma ancho_hijos_inv:
  assumes "inv_ancho P (n # fr) vis" and "set hijos \<subseteq> set (expande n (modelo P))"
    and "ancho_hijos P hijos fr vis num = (r, fr', vis', num')"
  shows "(r = None \<longrightarrow> inv_ancho P (n # fr') vis' \<and> vis \<subseteq> vis' \<and> estado ` set hijos \<subseteq> vis') \<and>
         (\<forall>m. r = Some m \<longrightarrow>
            (\<exists>h \<in> set hijos. m = sella h num' \<and> meta P (estado h) \<and> estado h \<notin> vis' \<and>
               (\<forall>as. camino_legal (modelo P) (x0 P) as \<and> meta P (destino (modelo P) (x0 P) as)
                    \<longrightarrow> profundidad h \<le> length as)))"
  using assms
proof (induction hijos arbitrary: fr vis num)
  case Nil
  then show ?case by simp
next
  case (Cons a hijos)
  from Cons.prems(2) have a: "a \<in> set (expande n (modelo P))"
    and hs: "set hijos \<subseteq> set (expande n (modelo P))" by simp_all
  show ?case
  proof (cases "estado a \<in> vis")
    case True
    with Cons.prems(3) have eq: "ancho_hijos P hijos fr vis num = (r, fr', vis', num')" by simp
    note ih = Cons.IH[OF Cons.prems(1) hs eq]
    from ih have u1: "r = None \<longrightarrow> inv_ancho P (n # fr') vis' \<and> vis \<subseteq> vis' \<and> estado ` set hijos \<subseteq> vis'"
      by (rule conjunct1)
    from ih have u2: "\<forall>m. r = Some m \<longrightarrow>
            (\<exists>h \<in> set hijos. m = sella h num' \<and> meta P (estado h) \<and> estado h \<notin> vis' \<and>
               (\<forall>as. camino_legal (modelo P) (x0 P) as \<and> meta P (destino (modelo P) (x0 P) as)
                    \<longrightarrow> profundidad h \<le> length as))"
      by (rule conjunct2)
    from u1 True have w1: "r = None \<longrightarrow> inv_ancho P (n # fr') vis' \<and> vis \<subseteq> vis' \<and>
        estado ` set (a # hijos) \<subseteq> vis'" by auto
    from u2 have w2: "\<forall>m. r = Some m \<longrightarrow>
            (\<exists>h \<in> set (a # hijos). m = sella h num' \<and> meta P (estado h) \<and> estado h \<notin> vis' \<and>
               (\<forall>as. camino_legal (modelo P) (x0 P) as \<and> meta P (destino (modelo P) (x0 P) as)
                    \<longrightarrow> profundidad h \<le> length as))"
      by (metis list.set_intros(2))
    from w1 w2 show ?thesis by (rule conjI)
  next
    case visto: False
    show ?thesis
    proof (cases "meta P (estado a)")
      case True
      with visto Cons.prems(3)
      have r: "r = Some (sella a (num + 1))" "num' = num + 1" "vis' = vis" by auto
      have "\<forall>as. camino_legal (modelo P) (x0 P) as \<and> meta P (destino (modelo P) (x0 P) as)
                    \<longrightarrow> profundidad a \<le> length as"
        using inv_ancho_meta[OF Cons.prems(1) a] by blast
      with r True visto have "\<exists>h \<in> set (a # hijos). sella a (num + 1) = sella h num' \<and> meta P (estado h) \<and>
          estado h \<notin> vis' \<and>
          (\<forall>as. camino_legal (modelo P) (x0 P) as \<and> meta P (destino (modelo P) (x0 P) as)
                    \<longrightarrow> profundidad h \<le> length as)"
        by (intro bexI[of _ a]) simp_all
      with r(1) show ?thesis by simp
    next
      case False
      with visto Cons.prems(3)
      have eq: "ancho_hijos P hijos (fr @ [a]) (insert (estado a) vis) (num + 1)
                  = (r, fr', vis', num')" by simp
      from inv_ancho_agrega[OF Cons.prems(1) a visto False]
      have i: "inv_ancho P (n # fr @ [a]) (insert (estado a) vis)" .
      note ih = Cons.IH[OF i hs eq]
      from ih have u1: "r = None \<longrightarrow> inv_ancho P (n # fr') vis' \<and> insert (estado a) vis \<subseteq> vis' \<and>
          estado ` set hijos \<subseteq> vis'"
        by (rule conjunct1)
      from ih have u2: "\<forall>m. r = Some m \<longrightarrow>
            (\<exists>h \<in> set hijos. m = sella h num' \<and> meta P (estado h) \<and> estado h \<notin> vis' \<and>
               (\<forall>as. camino_legal (modelo P) (x0 P) as \<and> meta P (destino (modelo P) (x0 P) as)
                    \<longrightarrow> profundidad h \<le> length as))"
        by (rule conjunct2)
      from u1 have w1: "r = None \<longrightarrow> inv_ancho P (n # fr') vis' \<and> vis \<subseteq> vis' \<and>
          estado ` set (a # hijos) \<subseteq> vis'" by auto
      from u2 have w2: "\<forall>m. r = Some m \<longrightarrow>
            (\<exists>h \<in> set (a # hijos). m = sella h num' \<and> meta P (estado h) \<and> estado h \<notin> vis' \<and>
               (\<forall>as. camino_legal (modelo P) (x0 P) as \<and> meta P (destino (modelo P) (x0 P) as)
                    \<longrightarrow> profundidad h \<le> length as))"
        by (metis list.set_intros(2))
      from w1 w2 show ?thesis by (rule conjI)
    qed
  qed
qed

lemma ancho_paso_Cons:
  assumes "ancho_hijos P (expande nodo (modelo P)) resto vis num = (r, fr2, vis2, num2)"
  shows "ancho_paso P (nodo # resto, vis, num) =
           (case r of Some m \<Rightarrow> Inl (Some m, num2) | None \<Rightarrow> Inr (fr2, vis2, num2))"
  using assms by (cases r) simp_all

lemma ancho_paso_Inr_inv:
  assumes i: "inv_ancho P F vis" and p: "ancho_paso P (F, vis, num) = Inr (F', vis', num')"
  shows "inv_ancho P F' vis'"
proof (cases F)
  case Nil
  with p show ?thesis by simp
next
  case (Cons nodo resto)
  obtain r fr2 vis2 num2 where
    h: "ancho_hijos P (expande nodo (modelo P)) resto vis num = (r, fr2, vis2, num2)"
    using prod_cases4 by blast
  from p[unfolded Cons ancho_paso_Cons[OF h]] have r: "r = None \<and> fr2 = F' \<and> vis2 = vis'"
    by (cases r) simp_all
  note inv = ancho_hijos_inv[OF i[unfolded Cons] subset_refl h]
  from inv r have "inv_ancho P (nodo # fr2) vis2 \<and> vis \<subseteq> vis2 \<and>
      estado ` set (expande nodo (modelo P)) \<subseteq> vis2"
    by blast
  with r have "inv_ancho P (nodo # F') vis'" "estado ` set (expande nodo (modelo P)) \<subseteq> vis'"
    by simp_all
  then show ?thesis by (rule inv_ancho_cierra)
qed

lemma ancho_paso_Inl_inv:
  assumes i: "inv_ancho P F vis" and p: "ancho_paso P (F, vis, num) = Inl (r, k)"
  shows "(r = None \<longrightarrow> F = []) \<and>
         (\<forall>m. r = Some m \<longrightarrow>
            (\<exists>nodo resto h. F = nodo # resto \<and> h \<in> set (expande nodo (modelo P)) \<and>
               m = sella h k \<and> meta P (estado h) \<and> estado h \<notin> vis \<and>
               (\<forall>as. camino_legal (modelo P) (x0 P) as \<and> meta P (destino (modelo P) (x0 P) as)
                    \<longrightarrow> profundidad h \<le> length as)))"
proof (cases F)
  case Nil
  with p show ?thesis by simp
next
  case (Cons nodo resto)
  obtain r2 fr2 vis2 num2 where
    h: "ancho_hijos P (expande nodo (modelo P)) resto vis num = (r2, fr2, vis2, num2)"
    using prod_cases4 by blast
  from p[unfolded Cons ancho_paso_Cons[OF h]] obtain m where
    m: "r2 = Some m" "r = Some m" "num2 = k"
    by (cases r2) simp_all
  note inv = ancho_hijos_inv[OF i[unfolded Cons] subset_refl h]
  from inv m(1) obtain hh where hh: "hh \<in> set (expande nodo (modelo P))" "m = sella hh num2"
    "meta P (estado hh)" "estado hh \<notin> vis2"
    "\<forall>as. camino_legal (modelo P) (x0 P) as \<and> meta P (destino (modelo P) (x0 P) as)
                    \<longrightarrow> profundidad hh \<le> length as"
    by blast
  have "vis \<subseteq> vis2" using h
  proof -
    have "\<And>fr vis num. ancho_hijos P hs fr vis num = (r2, fr2, vis2, num2) \<Longrightarrow> vis \<subseteq> vis2" for hs
    proof (induction hs)
      case Nil
      then show ?case by simp
    next
      case (Cons a hs)
      show ?case
      proof (cases "estado a \<in> vis")
        case True
        with Cons.prems have "ancho_hijos P hs fr vis num = (r2, fr2, vis2, num2)" by simp
        then show ?thesis by (rule Cons.IH)
      next
        case visto: False
        show ?thesis
        proof (cases "meta P (estado a)")
          case True
          with visto Cons.prems show ?thesis by auto
        next
          case False
          with visto Cons.prems
          have "ancho_hijos P hs (fr @ [a]) (insert (estado a) vis) (num + 1) = (r2, fr2, vis2, num2)"
            by simp
          from Cons.IH[OF this] show ?thesis by blast
        qed
      qed
    qed
    from this[OF h] show ?thesis .
  qed
  with hh(4) have "estado hh \<notin> vis" by blast
  with hh m Cons have "Cons nodo resto = nodo # resto \<and> hh \<in> set (expande nodo (modelo P)) \<and>
               m = sella hh k \<and> meta P (estado hh) \<and> estado hh \<notin> vis \<and>
               (\<forall>as. camino_legal (modelo P) (x0 P) as \<and> meta P (destino (modelo P) (x0 P) as)
                    \<longrightarrow> profundidad hh \<le> length as)"
    by simp
  then have "\<exists>nodo' resto' h. F = nodo' # resto' \<and> h \<in> set (expande nodo' (modelo P)) \<and>
               m = sella h k \<and> meta P (estado h) \<and> estado h \<notin> vis \<and>
               (\<forall>as. camino_legal (modelo P) (x0 P) as \<and> meta P (destino (modelo P) (x0 P) as)
                    \<longrightarrow> profundidad h \<le> length as)"
    unfolding Cons by blast
  with m(2) show ?thesis by simp
qed

lemma alcanzables_camino:
  assumes "s \<in> alcanzables P"
  shows "\<exists>as. camino_legal (modelo P) (x0 P) as \<and> destino (modelo P) (x0 P) as = s"
  using assms
proof (induction rule: alcanzables.induct)
  case inicial
  have "camino_legal (modelo P) (x0 P) [] \<and> destino (modelo P) (x0 P) [] = x0 P" by simp
  then show ?case by blast
next
  case (paso s a)
  then obtain as where as: "camino_legal (modelo P) (x0 P) as" "destino (modelo P) (x0 P) as = s"
    by blast
  with paso.hyps(2) have "camino_legal (modelo P) (x0 P) (as @ [a]) \<and>
      destino (modelo P) (x0 P) (as @ [a]) = sucesor (modelo P) s a"
    by (simp add: camino_legal_snoc destino_snoc)
  then show ?case by blast
qed

lemma inv_ancho_vacia:
  assumes "inv_ancho P [] vis" "s \<in> alcanzables P"
  shows "\<not> meta P s"
proof -
  from alcanzables_camino[OF assms(2)] obtain as where
    as: "camino_legal (modelo P) (x0 P) as" "destino (modelo P) (x0 P) as = s" by blast
  have "[] = [] \<or> length as \<le> profundidad (hd ([] :: ('a, 'b) nodo list))" by simp
  from inv_ancho_caminos[OF assms(1) as(1) this] as(2) have "s \<in> vis" by simp
  with inv_anchoD(4)[OF assms(1)] show ?thesis by blast
qed

lemma ancho_regresa:
  assumes "finite S" "cerrado (modelo P) S"
    and "estado ` set frontera \<subseteq> S" "visitados \<subseteq> S"
  shows "\<exists>r. ciclo_while (ancho_paso P) (frontera, visitados, num) = Some r"
proof -
  let ?I = "\<lambda>(fr, vis, num :: nat). estado ` set fr \<subseteq> S \<and> vis \<subseteq> S"
  let ?R = "inv_image (less_than <*lex*> less_than)
              (\<lambda>(fr, vis, num :: nat). (card (S - vis), length fr))"
  have paso: "?I s' \<and> (s', s) \<in> ?R" if i: "?I s" and p: "ancho_paso P s = Inr s'" for s s'
  proof -
    obtain fr vis num where s: "s = (fr, vis, num)" by (cases s)
    obtain fr' vis' num' where s': "s' = (fr', vis', num')" by (cases s')
    from p s obtain nodo resto where fr: "fr = nodo # resto" by (cases fr) auto
    from p s s' fr
    have h: "ancho_hijos P (expande nodo (modelo P)) resto vis num = (None, fr', vis', num')"
      by (auto split: prod.splits option.splits)
    have "estado ` set (expande nodo (modelo P)) \<subseteq> S"
      using expande_estados[OF assms(2), of nodo] i s fr by simp
    from ancho_hijos_progreso[OF h this] i s fr
    have r: "estado ` set fr' \<subseteq> S" "vis' \<subseteq> S" "vis \<subseteq> vis'" "vis' = vis \<longrightarrow> fr' = resto"
      by auto
    have "(card (S - vis'), length fr') = (card (S - vis), length fr') \<and> fr' = resto
          \<or> card (S - vis') < card (S - vis)"
    proof (cases "vis' = vis")
      case True
      with r show ?thesis by simp
    next
      case False
      with r have "S - vis' \<subset> S - vis" by blast
      then show ?thesis using assms(1) by (simp add: psubset_card_mono)
    qed
    then have "(s', s) \<in> ?R" by (auto simp: s s' fr)
    with r show ?thesis by (simp add: s')
  qed
  show ?thesis
  proof (rule ciclo_while_termina[where R = ?R and I = ?I])
    show "wf ?R" by (intro wf_inv_image wf_lex_prod wf_less_than)
    show "?I (frontera, visitados, num)" using assms by simp
    fix s s' assume "?I s" "ancho_paso P s = Inr s'"
    then show "?I s' \<and> (s', s) \<in> ?R" by (rule paso)
  qed
qed

lemma ancho_estados_inv:
  assumes "\<not> meta P (x0 P)"
    and "s \<in> estados_ciclo (ancho_paso P) ([nodo_init (x0 P) None None 0], {x0 P}, num_nodos P + 1)"
  shows "inv_ancho P (fst s) (fst (snd s))"
  using assms(2)
proof (induction rule: estados_ciclo.induct)
  case inicio
  from inv_ancho_inicial[OF assms(1)] show ?case by simp
next
  case (siguiente s s')
  obtain F vis num where s: "s = (F, vis, num)" by (cases s)
  obtain F' vis' num' where s': "s' = (F', vis', num')" by (cases s')
  from siguiente.IH s have "inv_ancho P F vis" by simp
  from ancho_paso_Inr_inv[OF this siguiente.hyps(2)[unfolded s s']] show ?case
    unfolding s' by simp
qed

lemma ancho_minima:
  assumes fin: "finite (alcanzables P)" and g: "g \<in> alcanzables P" "meta P g"
  shows "\<exists>m k. busqueda_ancho P = Some (Some m, k) \<and> meta P (estado m) \<and>
           (\<exists>as. camino_legal (modelo P) (x0 P) as \<and> destino (modelo P) (x0 P) as = estado m \<and>
                 length as = profundidad m) \<and>
           (\<forall>as. camino_legal (modelo P) (x0 P) as \<and> meta P (destino (modelo P) (x0 P) as)
                 \<longrightarrow> profundidad m \<le> length as)"
proof (cases "meta P (x0 P)")
  case True
  let ?r = "Nodo (x0 P) None None 0 0 0 :: ('a, 'b) nodo"
  from True have "busqueda_ancho P = Some (Some ?r, num_nodos P + 1)"
    by (simp add: busqueda_ancho_def)
  moreover have "meta P (estado ?r)" using True by simp
  moreover have "camino_legal (modelo P) (x0 P) [] \<and> destino (modelo P) (x0 P) [] = estado ?r \<and>
      length ([] :: 'b list) = profundidad ?r" by simp
  then have "\<exists>as. camino_legal (modelo P) (x0 P) as \<and> destino (modelo P) (x0 P) as = estado ?r \<and>
      length as = profundidad ?r" by blast
  moreover have "\<forall>as. camino_legal (modelo P) (x0 P) as \<and> meta P (destino (modelo P) (x0 P) as)
                 \<longrightarrow> profundidad ?r \<le> length as" by simp
  ultimately show ?thesis by blast
next
  case False
  let ?s0 = "([nodo_init (x0 P) None None 0], {x0 P}, num_nodos P + 1)"
  define Q :: "('a, 'b) nodo option \<times> nat \<Rightarrow> bool" where
    "Q = (\<lambda>r. \<exists>m k. r = (Some m, k) \<and> meta P (estado m) \<and>
           (\<exists>as. camino_legal (modelo P) (x0 P) as \<and> destino (modelo P) (x0 P) as = estado m \<and>
                 length as = profundidad m) \<and>
           (\<forall>as. camino_legal (modelo P) (x0 P) as \<and> meta P (destino (modelo P) (x0 P) as)
                 \<longrightarrow> profundidad m \<le> length as))"
  define I :: "('a, 'b) nodo list \<times> 'a set \<times> nat \<Rightarrow> bool" where
    "I = (\<lambda>s. inv_ancho P (fst s) (fst (snd s)))"
  from False have eq: "busqueda_ancho P = ciclo_while (ancho_paso P) ?s0"
    by (simp add: busqueda_ancho_def)
  have "\<exists>r. ciclo_while (ancho_paso P) ?s0 = Some r"
    by (rule ancho_regresa[OF fin cerrado_alcanzables]) (simp_all add: alcanzables.inicial)
  then obtain r where r: "ciclo_while (ancho_paso P) ?s0 = Some r" ..
  have "Q r"
  proof (rule ciclo_while_invariante[OF r, where I = I])
    show "I ?s0" using inv_ancho_inicial[OF False] by (simp add: I_def)
  next
    fix s s' assume i: "I s" and p: "ancho_paso P s = Inr s'"
    obtain F vis num where s: "s = (F, vis, num)" by (cases s)
    obtain F' vis' num' where s': "s' = (F', vis', num')" by (cases s')
    from i s have "inv_ancho P F vis" by (simp add: I_def)
    from ancho_paso_Inr_inv[OF this p[unfolded s s']] show "I s'"
      unfolding s' I_def by simp
  next
    fix s r' assume i: "I s" and p: "ancho_paso P s = Inl r'"
    obtain F vis num where s: "s = (F, vis, num)" by (cases s)
    obtain rr k where r': "r' = (rr, k)" by (cases r')
    from i s have inv: "inv_ancho P F vis" by (simp add: I_def)
    note c = ancho_paso_Inl_inv[OF inv p[unfolded s r']]
    show "Q r'"
    proof (cases rr)
      case None
      with c have "F = []" by blast
      with inv have "inv_ancho P [] vis" by simp
      from inv_ancho_vacia[OF this g(1)] g(2) show ?thesis by blast
    next
      case (Some m)
      with c obtain nodo resto h where h: "F = nodo # resto" "h \<in> set (expande nodo (modelo P))"
        "m = sella h k" "meta P (estado h)"
        "\<forall>as. camino_legal (modelo P) (x0 P) as \<and> meta P (destino (modelo P) (x0 P) as)
                    \<longrightarrow> profundidad h \<le> length as"
        by blast
      from inv_anchoD(1)[OF inv] h(1) have "nodo \<in> nodos_motor (modelo P) (x0 P)" by simp
      from this h(2) have "h \<in> nodos_motor (modelo P) (x0 P)" by (rule nodos_motor.hijo)
      from nodos_motor_camino[OF this]
      have cam: "camino_legal (modelo P) (x0 P) (acciones_nodo h) \<and>
          destino (modelo P) (x0 P) (acciones_nodo h) = estado h \<and>
          length (acciones_nodo h) = profundidad h" by blast
      have e: "estado m = estado h" "profundidad m = profundidad h" using h(3) by simp_all
      from cam have "\<exists>as. camino_legal (modelo P) (x0 P) as \<and>
          destino (modelo P) (x0 P) as = estado m \<and> length as = profundidad m"
        unfolding e by blast
      moreover from h(4) have "meta P (estado m)" unfolding e .
      moreover from h(5) have "\<forall>as. camino_legal (modelo P) (x0 P) as \<and>
          meta P (destino (modelo P) (x0 P) as) \<longrightarrow> profundidad m \<le> length as"
        unfolding e .
      ultimately show ?thesis unfolding Q_def r' Some by blast
    qed
  qed
  with r eq show ?thesis unfolding Q_def by auto
qed

lemma alcanzables_rombo: "alcanzables rombo \<subseteq> {0, 1, 2, 3}"
proof
  fix s assume "s \<in> alcanzables rombo"
  then show "s \<in> {0, 1, 2, 3}"
    by induction (auto simp: rombo_def rombo_modelo_def split: if_splits)
qed

lemma rombo_meta_alcanzable: "3 \<in> alcanzables rombo"
proof -
  have "x0 rombo \<in> alcanzables rombo" by (rule alcanzables.inicial)
  from alcanzables_destino[OF this, of "[0, 0]"] show ?thesis
    by (simp add: rombo_def rombo_modelo_def)
qed

lemma rombo_ancho:
  "busqueda_ancho rombo =
     Some (Some (Nodo 3 (Some 0) (Some (Nodo 1 (Some 0) (Some (Nodo 0 None None 0 0 0)) 1 1 0)) 6 2 4), 4)"
  by code_simp

text \<open>
  C3.  On a problem with finitely many reachable states, one of them a goal,
  \<^verbatim>\<open>busqueda_ancho\<close> returns a goal node whose depth is the length of a legal path from
  the initial state to its state, and no legal path from the initial state to any goal is
  shorter.  If the initial state is a goal, the root node, of depth 0, is returned at once.
  Otherwise the goal test is made when a child is generated, not when a node is popped: in
  every state the loop reaches no node of the frontier is a goal, and a pass that returns a
  node returns a child of the popped node, just made by \<^verbatim>\<open>expande\<close>, whose state was
  not visited and is a goal.
\<close>

theorem C3_ancho_profundidad_minima:
  "(finite (alcanzables P) \<and> (\<exists>s \<in> alcanzables P. meta P s) \<longrightarrow>
      (\<exists>m k. busqueda_ancho P = Some (Some m, k) \<and> meta P (estado m) \<and>
         (\<exists>as. camino_legal (modelo P) (x0 P) as \<and> destino (modelo P) (x0 P) as = estado m \<and>
               length as = profundidad m) \<and>
         (\<forall>as. camino_legal (modelo P) (x0 P) as \<and> meta P (destino (modelo P) (x0 P) as)
               \<longrightarrow> profundidad m \<le> length as))) \<and>
   (meta P (x0 P) \<longrightarrow>
      busqueda_ancho P = Some (Some (Nodo (x0 P) None None 0 0 0), num_nodos P + 1)) \<and>
   (\<not> meta P (x0 P) \<longrightarrow>
      (\<forall>(frontera, visitados, num) \<in>
          estados_ciclo (ancho_paso P) ([nodo_init (x0 P) None None 0], {x0 P}, num_nodos P + 1).
         (\<forall>n \<in> set frontera. \<not> meta P (estado n)) \<and>
         (\<forall>m k. ancho_paso P (frontera, visitados, num) = Inl (Some m, k) \<longrightarrow>
            (\<exists>nodo resto h. frontera = nodo # resto \<and> h \<in> set (expande nodo (modelo P)) \<and>
               m = sella h k \<and> meta P (estado h) \<and> estado h \<notin> visitados))))"
proof (intro conjI impI)
  assume "finite (alcanzables P) \<and> (\<exists>s \<in> alcanzables P. meta P s)"
  then obtain g where "finite (alcanzables P)" "g \<in> alcanzables P" "meta P g" by blast
  then show "\<exists>m k. busqueda_ancho P = Some (Some m, k) \<and> meta P (estado m) \<and>
         (\<exists>as. camino_legal (modelo P) (x0 P) as \<and> destino (modelo P) (x0 P) as = estado m \<and>
               length as = profundidad m) \<and>
         (\<forall>as. camino_legal (modelo P) (x0 P) as \<and> meta P (destino (modelo P) (x0 P) as)
               \<longrightarrow> profundidad m \<le> length as)"
    by (rule ancho_minima)
next
  assume "meta P (x0 P)"
  then show "busqueda_ancho P = Some (Some (Nodo (x0 P) None None 0 0 0), num_nodos P + 1)"
    by (simp add: busqueda_ancho_def)
next
  assume nm: "\<not> meta P (x0 P)"
  show "\<forall>(frontera, visitados, num) \<in>
          estados_ciclo (ancho_paso P) ([nodo_init (x0 P) None None 0], {x0 P}, num_nodos P + 1).
         (\<forall>n \<in> set frontera. \<not> meta P (estado n)) \<and>
         (\<forall>m k. ancho_paso P (frontera, visitados, num) = Inl (Some m, k) \<longrightarrow>
            (\<exists>nodo resto h. frontera = nodo # resto \<and> h \<in> set (expande nodo (modelo P)) \<and>
               m = sella h k \<and> meta P (estado h) \<and> estado h \<notin> visitados))"
  proof (rule ballI)
    fix x
    assume x: "x \<in> estados_ciclo (ancho_paso P)
        ([nodo_init (x0 P) None None 0], {x0 P}, num_nodos P + 1)"
    obtain F vis num where s: "x = (F, vis, num)" by (cases x)
    from ancho_estados_inv[OF nm x] s have inv: "inv_ancho P F vis" by simp
    have a: "\<forall>n \<in> set F. \<not> meta P (estado n)"
      using inv_anchoD(2)[OF inv] inv_anchoD(4)[OF inv] by blast
    have b: "\<forall>m k. ancho_paso P (F, vis, num) = Inl (Some m, k) \<longrightarrow>
            (\<exists>nodo resto h. F = nodo # resto \<and> h \<in> set (expande nodo (modelo P)) \<and>
               m = sella h k \<and> meta P (estado h) \<and> estado h \<notin> vis)"
    proof (intro allI impI)
      fix m k assume p: "ancho_paso P (F, vis, num) = Inl (Some m, k)"
      from ancho_paso_Inl_inv[OF inv p] obtain nodo resto h where
        "F = nodo # resto" "h \<in> set (expande nodo (modelo P))" "m = sella h k"
        "meta P (estado h)" "estado h \<notin> vis" by blast
      then show "\<exists>nodo resto h. F = nodo # resto \<and> h \<in> set (expande nodo (modelo P)) \<and>
               m = sella h k \<and> meta P (estado h) \<and> estado h \<notin> vis" by blast
    qed
    from a b show "case x of (frontera, visitados, num) \<Rightarrow>
         (\<forall>n \<in> set frontera. \<not> meta P (estado n)) \<and>
         (\<forall>m k. ancho_paso P (frontera, visitados, num) = Inl (Some m, k) \<longrightarrow>
            (\<exists>nodo resto h. frontera = nodo # resto \<and> h \<in> set (expande nodo (modelo P)) \<and>
               m = sella h k \<and> meta P (estado h) \<and> estado h \<notin> visitados))"
      unfolding s by simp
  qed
qed

theorem C3_ancho_profundidad_minima_witness:
  "busqueda_ancho rombo =
     Some (Some (Nodo 3 (Some 0) (Some (Nodo 1 (Some 0) (Some (Nodo 0 None None 0 0 0)) 1 1 0)) 6 2 4), 4) \<and>
   camino_legal (modelo rombo) (x0 rombo) [1, 0] \<and>
   meta rombo (destino (modelo rombo) (x0 rombo) [1, 0]) \<and>
   profundidad (Nodo (3::nat) (Some (0::nat)) (Some (Nodo 1 (Some 0) (Some (Nodo 0 None None 0 0 0)) 1 1 0)) 6 2 4)
     \<le> length [1::nat, 0]"
proof -
  let ?N = "Nodo (3::nat) (Some (0::nat)) (Some (Nodo 1 (Some 0) (Some (Nodo 0 None None 0 0 0)) 1 1 0)) 6 2 4"
  have fin: "finite (alcanzables rombo)"
    by (rule finite_subset[OF alcanzables_rombo]) simp
  have g: "\<exists>s \<in> alcanzables rombo. meta rombo s"
    using rombo_meta_alcanzable by (auto simp: rombo_def)
  have cam: "camino_legal (modelo rombo) (x0 rombo) [1, 0]"
    "meta rombo (destino (modelo rombo) (x0 rombo) [1, 0])"
    by (simp_all add: rombo_def rombo_modelo_def)
  from C3_ancho_profundidad_minima[of rombo] fin g
  obtain m k where m: "busqueda_ancho rombo = Some (Some m, k)"
    "\<forall>as. camino_legal (modelo rombo) (x0 rombo) as \<and> meta rombo (destino (modelo rombo) (x0 rombo) as)
               \<longrightarrow> profundidad m \<le> length as"
    by blast
  from m(1) rombo_ancho have "m = ?N" by simp
  with m(2) cam have "profundidad ?N \<le> length [1::nat, 0]" by blast
  with rombo_ancho cam show ?thesis by blast
qed

end
